theory Spec2Isabelle
  imports Main "HOL-Library.Extended_Nat" "HOL-Library.Multiset"
begin

section \<open>Data model\<close>

text \<open>
  Word and guess identifiers index the rows and columns of the outcome matrix \<open>M\<close>;
  a result code is the integer stored in a cell of \<open>M\<close>.  The matrix is built once,
  outside the solver classes, and only read by them, so it is a parameter of every
  definition below: \<open>M g w\<close> is \<^verbatim>\<open>M[g, w]\<close>.  Identifiers are taken inside the
  dictionary bounds, so a lookup in \<open>M\<close> never raises.

  Costs and the pruning bound \<open>alpha\<close> are Python integers: the code subtracts them,
  so they are modelled as \<open>int\<close>.  The depth \<open>d\<close> counts the guesses already made;
  the callers pass \<^verbatim>\<open>1\<close> and \<^verbatim>\<open>len(h) // 2\<close> and the recursion passes
  \<^verbatim>\<open>d + 1\<close>, so it is a natural number.
\<close>

type_synonym outcome_matrix = "nat \<Rightarrow> nat \<Rightarrow> nat"

datatype py_error = IndexError | ValueError | TypeError | RecursionError

text \<open>What \<^verbatim>\<open>solve_cost\<close> returns: the pair \<^verbatim>\<open>(guess, cost)\<close>, where the guess may be
  \<^verbatim>\<open>None\<close>, or the exception that ended the call.\<close>

type_synonym cost_result = "py_error + (nat option \<times> int)"

section \<open>The numpy operations the solvers use\<close>

text \<open>\<^verbatim>\<open>M[g, words]\<close>: the row of \<open>g\<close> at the columns \<open>words\<close>.\<close>

definition row_at :: "outcome_matrix \<Rightarrow> nat \<Rightarrow> nat list \<Rightarrow> nat list" where
  "row_at M g ws = map (M g) ws"

text \<open>\<^verbatim>\<open>np.unique(results, return_counts=True)\<close>: the distinct values in ascending
  order, and how often each occurs.\<close>

definition np_unique :: "nat list \<Rightarrow> nat list \<times> nat list" where
  "np_unique xs = (let u = sort (remdups xs) in (u, map (count_list xs) u))"

text \<open>\<^verbatim>\<open>np.argsort(counts)\<close>: the positions of \<open>counts\<close> in ascending order of the
  value found there.  numpy leaves the order of positions that hold equal values to the
  sorting routine; here they are kept in ascending order.  The theorems that hold for
  all inputs use only that the sorted codes are a rearrangement of the distinct codes
  (\<open>mset_by_count\<close> below), so they hold for every order of the ties.\<close>

definition np_argsort :: "nat list \<Rightarrow> nat list" where
  "np_argsort cs = sort_key (\<lambda>i. cs ! i) [0..<length cs]"

text \<open>\<^verbatim>\<open>xs[idx]\<close> for an index array \<open>idx\<close>.\<close>

definition take_idx :: "'a list \<Rightarrow> nat list \<Rightarrow> 'a list" where
  "take_idx xs idx = map (\<lambda>i. xs ! i) idx"

text \<open>\<^verbatim>\<open>np.where(xs == v)[0]\<close>: the positions that hold \<open>v\<close>.\<close>

definition np_where_eq :: "nat list \<Rightarrow> nat \<Rightarrow> nat list" where
  "np_where_eq xs v = filter (\<lambda>i. xs ! i = v) [0..<length xs]"

text \<open>\<^verbatim>\<open>words[np.where(M[g, words] == result)[0]]\<close>: the members of \<open>ws\<close> that give
  \<open>result\<close> against the guess \<open>g\<close>.  The same expression narrows the guess list.\<close>

definition narrow :: "outcome_matrix \<Rightarrow> nat \<Rightarrow> nat list \<Rightarrow> nat \<Rightarrow> nat list" where
  "narrow M g ws result = take_idx ws (np_where_eq (row_at M g ws) result)"

text \<open>\<^verbatim>\<open>unique_results[np.argsort(counts)]\<close>: the result codes, rarest first.\<close>

definition by_count :: "nat list \<Rightarrow> nat list" where
  "by_count results = (case np_unique results of (u, counts) \<Rightarrow> take_idx u (np_argsort counts))"

text \<open>\<^verbatim>\<open>max(counts)\<close> raises \<^verbatim>\<open>ValueError\<close> on an empty sequence.\<close>

definition py_max :: "nat list \<Rightarrow> py_error + nat" where
  "py_max xs = (case xs of [] \<Rightarrow> Inl ValueError | y # ys \<Rightarrow> Inr (fold max ys y))"

section \<open>The cost search engine\<close>

text \<open>\<^verbatim>\<open>min_possible_cost = n + 2 * sum(counts) - len(counts) - (g in words)\<close>\<close>

definition min_possible_cost :: "outcome_matrix \<Rightarrow> nat \<Rightarrow> nat list \<Rightarrow> int" where
  "min_possible_cost M g words =
     (case np_unique (row_at M g words) of (u, counts) \<Rightarrow>
        int (length words) + 2 * int (sum_list counts) - int (length counts)
          - (if g \<in> set words then 1 else 0))"

text \<open>
  The loop over the result codes of one guess (\<^verbatim>\<open>for result in unique_results\<close>).
  \<open>rec\<close> is the recursive call \<^verbatim>\<open>self.solve_cost(_, _, _, d + 1)\<close>; \<open>gw\<close> is the
  sorted guess list of the enclosing call; \<open>cost\<close> is the running cost of the guess.
  The loop has a \<^verbatim>\<open>break\<close> (the cost reached \<open>min_cost\<close>) and a \<^verbatim>\<open>continue\<close>
  (result code 0).
\<close>

fun result_loop ::
  "(nat list \<Rightarrow> nat list \<Rightarrow> int \<Rightarrow> cost_result) \<Rightarrow> outcome_matrix \<Rightarrow> nat \<Rightarrow> nat list \<Rightarrow>
     nat list \<Rightarrow> int \<Rightarrow> nat list \<Rightarrow> int \<Rightarrow> py_error + int" where
  "result_loop rec M g words gw min_cost [] cost = Inr cost"
| "result_loop rec M g words gw min_cost (result # rest) cost =
     (if cost \<ge> min_cost then Inr cost
      else if result = 0 then result_loop rec M g words gw min_cost rest cost
      else
        (case rec (narrow M g words result) (narrow M g gw result) (min_cost - cost) of
           Inl e \<Rightarrow> Inl e
         | Inr (_, c) \<Rightarrow> result_loop rec M g words gw min_cost rest (cost + c)))"

text \<open>
  The test \<^verbatim>\<open>if g not in words: ... if max(counts) == n: continue\<close>: a guess outside
  the candidates that gives one result for all of them tells nothing.
\<close>

definition useless_guess :: "outcome_matrix \<Rightarrow> nat \<Rightarrow> nat list \<Rightarrow> py_error + bool" where
  "useless_guess M g words =
     (if g \<in> set words then Inr False
      else
        (case py_max (snd (np_unique (row_at M g words))) of
           Inl e \<Rightarrow> Inl e
         | Inr mx \<Rightarrow> Inr (mx = length words)))"

text \<open>
  The loop over the guesses (\<^verbatim>\<open>for g in guess_words\<close>), with the best guess and cost
  found so far as its state.  It ends by running out of guesses or by one of the two
  \<^verbatim>\<open>return\<close> statements inside it.
\<close>

fun guess_loop ::
  "(nat list \<Rightarrow> nat list \<Rightarrow> int \<Rightarrow> cost_result) \<Rightarrow> outcome_matrix \<Rightarrow> nat list \<Rightarrow> nat list \<Rightarrow>
     nat list \<Rightarrow> nat option \<Rightarrow> int \<Rightarrow> cost_result" where
  "guess_loop rec M words gw [] min_guess min_cost = Inr (min_guess, min_cost)"
| "guess_loop rec M words gw (g # gs) min_guess min_cost =
     (if min_possible_cost M g words \<ge> min_cost
      then guess_loop rec M words gw gs min_guess min_cost
      else if g \<notin> set words \<and> min_cost = 2 * int (length words)
      then Inr (min_guess, min_cost)
      else
        (case useless_guess M g words of
           Inl e \<Rightarrow> Inl e
         | Inr True \<Rightarrow> guess_loop rec M words gw gs min_guess min_cost
         | Inr False \<Rightarrow>
             (case result_loop rec M g words gw min_cost (by_count (row_at M g words))
                     (int (length words)) of
                Inl e \<Rightarrow> Inl e
              | Inr cost \<Rightarrow>
                  (let best = (if cost < min_cost then (Some g, cost) else (min_guess, min_cost))
                   in if snd best = 2 * int (length words) - 1
                      then Inr best
                      else guess_loop rec M words gw gs (fst best) (snd best)))))"

text \<open>\<^verbatim>\<open>HardWordle.solve_cost(words, guess_words, alpha, d)\<close>.  The method of
  \<^verbatim>\<open>FastWordle\<close> has the same body, with the recursive call made through
  \<^verbatim>\<open>cache_cost\<close>; it is \<open>fast_solve_cost\<close> below.\<close>

function solve_cost ::
  "outcome_matrix \<Rightarrow> nat list \<Rightarrow> nat list \<Rightarrow> int \<Rightarrow> nat \<Rightarrow> cost_result" where
  "solve_cost M words guess_words alpha d =
     (if d > 5 then Inr (None, 10000)
      else if d = 5 \<and> length words > 1 then Inr (None, 10000)
      else if length words \<le> 2 then
        (case words of
           [] \<Rightarrow> Inl IndexError
         | w # _ \<Rightarrow> Inr (Some w, 2 * int (length words) - 1))
      else
        guess_loop (\<lambda>ws gs a. solve_cost M ws gs a (d + 1)) M words
          (sort guess_words) (sort guess_words) None alpha)"
  by pat_completeness auto
termination
  by (relation "measure (\<lambda>(M, words, guess_words, alpha, d). 6 - d)") auto

text \<open>
  The same function under a limit on the number of nested calls, as the Python
  interpreter runs it: a call that would exceed the limit raises \<^verbatim>\<open>RecursionError\<close>.
  \<open>limit\<close> counts the calls that may still be nested, this one included.
\<close>

fun solve_cost_lim ::
  "nat \<Rightarrow> outcome_matrix \<Rightarrow> nat list \<Rightarrow> nat list \<Rightarrow> int \<Rightarrow> nat \<Rightarrow> cost_result" where
  "solve_cost_lim 0 M words guess_words alpha d = Inl RecursionError"
| "solve_cost_lim (Suc limit) M words guess_words alpha d =
     (if d > 5 then Inr (None, 10000)
      else if d = 5 \<and> length words > 1 then Inr (None, 10000)
      else if length words \<le> 2 then
        (case words of
           [] \<Rightarrow> Inl IndexError
         | w # _ \<Rightarrow> Inr (Some w, 2 * int (length words) - 1))
      else
        guess_loop (\<lambda>ws gs a. solve_cost_lim limit M ws gs a (d + 1)) M words
          (sort guess_words) (sort guess_words) None alpha)"

section \<open>The memoization cache\<close>

text \<open>
  \<^verbatim>\<open>FastWordle.solve_cost\<close> and \<^verbatim>\<open>FastWordle.cache_cost\<close> call each other:
  \<^verbatim>\<open>cache_cost\<close> runs \<^verbatim>\<open>solve_cost\<close>, measures the time it took and returns its
  result (the lines that read and wrote the cache are commented out), and
  \<^verbatim>\<open>solve_cost\<close> makes its recursive call through \<^verbatim>\<open>cache_cost\<close>.
\<close>

function fast_solve_cost ::
    "outcome_matrix \<Rightarrow> nat list \<Rightarrow> nat list \<Rightarrow> int \<Rightarrow> nat \<Rightarrow> cost_result"
  and cache_cost ::
    "outcome_matrix \<Rightarrow> nat list \<Rightarrow> nat list \<Rightarrow> int \<Rightarrow> nat \<Rightarrow> cost_result" where
  "fast_solve_cost M words guess_words alpha d =
     (if d > 5 then Inr (None, 10000)
      else if d = 5 \<and> length words > 1 then Inr (None, 10000)
      else if length words \<le> 2 then
        (case words of
           [] \<Rightarrow> Inl IndexError
         | w # _ \<Rightarrow> Inr (Some w, 2 * int (length words) - 1))
      else
        guess_loop (\<lambda>ws gs a. cache_cost M ws gs a (d + 1)) M words
          (sort guess_words) (sort guess_words) None alpha)"
| "cache_cost M words guess_words alpha d = fast_solve_cost M words guess_words alpha d"
  by pat_completeness auto
termination
  by (relation "measure (\<lambda>x. case x of
          Inl (M, words, guess_words, alpha, d) \<Rightarrow> 2 * (6 - d)
        | Inr (M, words, guess_words, alpha, d) \<Rightarrow> 2 * (6 - d) + 1)") auto

text \<open>
  \<^verbatim>\<open>FastWordle._solve\<close>: the cache is a dictionary keyed by \<^verbatim>\<open>tuple(words)\<close>.  On a
  miss the method calls itself with the same arguments before it stores anything, so the
  call may not return: the model is a partial function, and \<open>None\<close> is "no result".
  It returns the cache with the value.
\<close>

partial_function (option) memo_solve ::
  "(nat list \<rightharpoonup> 'v) \<Rightarrow> nat list \<Rightarrow> nat list \<Rightarrow> ((nat list \<rightharpoonup> 'v) \<times> 'v) option" where
  "memo_solve cache words guess_words =
     (case cache words of
        Some v \<Rightarrow> Some (cache, v)
      | None \<Rightarrow>
          Option.bind (memo_solve cache words guess_words)
            (\<lambda>(cache', r). Some (cache'(words \<mapsto> r), r)))"

section \<open>The top-level solver\<close>

text \<open>
  The values of the decision tree: the loop stores pairs \<^verbatim>\<open>(next_guess, inc)\<close>;
  \<^verbatim>\<open>FastWordle.solve\<close> stores the bare winning guess at the root.
\<close>

datatype tree_value = Pair_val "nat option" int | Guess_val "nat option"

type_synonym decision_tree = "nat list \<rightharpoonup> tree_value"

text \<open>
  The guess dictionary is a Python list of strings (the constructor's docstring) or a
  numpy array of strings (what the callers in \<^verbatim>\<open>main.py\<close> pass).  Both raise
  \<^verbatim>\<open>IndexError\<close> for an index outside the dictionary; they differ at the index
  \<^verbatim>\<open>None\<close>, which a list refuses with \<^verbatim>\<open>TypeError\<close> and an array accepts (it
  gives the whole array with a new axis).
\<close>

datatype str_seq = Py_list "string list" | Np_array "string list"

fun items :: "str_seq \<Rightarrow> string list" where
  "items (Py_list ws) = ws"
| "items (Np_array ws) = ws"

definition str_at :: "str_seq \<Rightarrow> nat \<Rightarrow> py_error + string" where
  "str_at gd g = (if g < length (items gd) then Inr (items gd ! g) else Inl IndexError)"

definition str_at_opt :: "str_seq \<Rightarrow> nat option \<Rightarrow> py_error + unit" where
  "str_at_opt gd guess =
     (case guess of
        Some g \<Rightarrow> (case str_at gd g of Inl e \<Rightarrow> Inl e | Inr w \<Rightarrow> Inr ())
      | None \<Rightarrow> (case gd of Py_list ws \<Rightarrow> Inl TypeError | Np_array ws \<Rightarrow> Inr ()))"

text \<open>The fields of a solver object that \<^verbatim>\<open>__init__\<close> sets and \<^verbatim>\<open>solve\<close> uses.\<close>

record wordle =
  matrix :: outcome_matrix
  guess_dict :: str_seq
  global_guess_list :: "nat list"
  hist :: "nat list"
  tree :: decision_tree
  letter_freqs :: "char \<Rightarrow> nat"
  guess_order :: "nat list"

text \<open>
  The loop of \<^verbatim>\<open>solve\<close> over the result codes of one first guess.  \<open>cost_fn\<close> is
  \<^verbatim>\<open>self.solve_cost\<close> (\<^verbatim>\<open>HardWordle\<close>) or \<^verbatim>\<open>self.cache_cost\<close> (\<^verbatim>\<open>FastWordle\<close>).
  The state is the history, the tree and the running cost; the \<^verbatim>\<open>break\<close> is at the end
  of the body.
\<close>

fun solve_results ::
  "(nat list \<Rightarrow> nat list \<Rightarrow> int \<Rightarrow> nat \<Rightarrow> cost_result) \<Rightarrow> outcome_matrix \<Rightarrow> nat \<Rightarrow> nat list \<Rightarrow>
     nat list \<Rightarrow> int \<Rightarrow> nat list \<Rightarrow> nat list \<Rightarrow> decision_tree \<Rightarrow> int \<Rightarrow>
     py_error + (nat list \<times> decision_tree \<times> int)" where
  "solve_results cost_fn M g words guess_words min_cost [] h t cost = Inr (h, t, cost)"
| "solve_results cost_fn M g words guess_words min_cost (result # rest) h t cost =
     (if result = 0 then solve_results cost_fn M g words guess_words min_cost rest h t cost
      else
        (case cost_fn (narrow M g words result) (narrow M g guess_words result)
                (min_cost - cost) 1 of
           Inl e \<Rightarrow> Inl e
         | Inr (next_guess, inc) \<Rightarrow>
             (let h1 = h @ [result];
                  t' = t(h1 \<mapsto> Pair_val next_guess inc);
                  cost' = cost + inc;
                  h2 = butlast h1
              in if cost' \<ge> min_cost then Inr (h2, t', cost')
                 else solve_results cost_fn M g words guess_words min_cost rest h2 t' cost')))"

text \<open>
  The loop of \<^verbatim>\<open>solve\<close> over the first guesses.  \<open>expired i\<close> is what the clock test
  \<^verbatim>\<open>time.time() - self.start > timeout\<close> of \<^verbatim>\<open>FastWordle.solve\<close> gives in round
  \<open>i\<close>; it leaves the loop after the guess was appended to the history.
  \<^verbatim>\<open>HardWordle.solve\<close> has no such test.
\<close>

fun solve_guesses ::
  "(nat list \<Rightarrow> nat list \<Rightarrow> int \<Rightarrow> nat \<Rightarrow> cost_result) \<Rightarrow> (nat \<Rightarrow> bool) \<Rightarrow> outcome_matrix \<Rightarrow>
     nat list \<Rightarrow> nat list \<Rightarrow> nat list \<Rightarrow> nat \<Rightarrow> nat list \<Rightarrow> decision_tree \<Rightarrow> int \<Rightarrow> nat option \<Rightarrow>
     py_error + (nat list \<times> decision_tree \<times> int \<times> nat option)" where
  "solve_guesses cost_fn expired M words guess_words [] i h t min_cost guess =
     Inr (h, t, min_cost, guess)"
| "solve_guesses cost_fn expired M words guess_words (g # gs) i h t min_cost guess =
     (if expired i then Inr (h @ [g], t, min_cost, guess)
      else
        (case solve_results cost_fn M g words guess_words min_cost
                (by_count (row_at M g words)) (h @ [g]) t (int (length words)) of
           Inl e \<Rightarrow> Inl e
         | Inr (h2, t', cost) \<Rightarrow>
             (if cost < min_cost
              then solve_guesses cost_fn expired M words guess_words gs (i + 1)
                     (butlast h2) t' cost (Some g)
              else solve_guesses cost_fn expired M words guess_words gs (i + 1)
                     (butlast h2) t' min_cost guess)))"

text \<open>
  The end of \<^verbatim>\<open>solve\<close>: \<^verbatim>\<open>self.guess_dict[guess]\<close> is evaluated first, then the
  comprehension \<^verbatim>\<open>{hist : sol for hist, sol in self.tree.items() if hist[0] == guess}\<close>
  reads the first element of every key (the empty key has none), and the root entry is
  stored last.  No first element equals \<^verbatim>\<open>None\<close>.
\<close>

definition branches_of :: "decision_tree \<Rightarrow> nat option \<Rightarrow> decision_tree" where
  "branches_of t guess = (\<lambda>h. if h \<noteq> [] \<and> Some (hd h) = guess then t h else None)"

definition finish_solve ::
  "str_seq \<Rightarrow> decision_tree \<Rightarrow> nat option \<Rightarrow> tree_value \<Rightarrow> py_error + decision_tree" where
  "finish_solve gd t guess root_entry =
     (case str_at_opt gd guess of
        Inl e \<Rightarrow> Inl e
      | Inr u \<Rightarrow>
          if t [] \<noteq> None then Inl IndexError
          else Inr ((branches_of t guess)([] \<mapsto> root_entry)))"

text \<open>\<^verbatim>\<open>HardWordle.solve(words, guess_words)\<close>: the solver object after the call, and
  the tree returned.\<close>

definition solve :: "wordle \<Rightarrow> nat list \<Rightarrow> nat list \<Rightarrow> py_error + (wordle \<times> decision_tree)" where
  "solve self words guess_words =
     (case solve_guesses (solve_cost (matrix self)) (\<lambda>i. False) (matrix self) words guess_words
             (global_guess_list self) 0 (hist self) (tree self) (4 * int (length words)) None of
        Inl e \<Rightarrow> Inl e
      | Inr (h, t, min_cost, guess) \<Rightarrow>
          (case finish_solve (guess_dict self) t guess (Pair_val guess min_cost) of
             Inl e \<Rightarrow> Inl e
           | Inr solution_tree \<Rightarrow> Inr (self\<lparr>hist := h, tree := t\<rparr>, solution_tree)))"

text \<open>\<^verbatim>\<open>FastWordle.solve(words, guess_words)\<close>, with the readings of the clock as a
  parameter.\<close>

definition fast_solve ::
  "(nat \<Rightarrow> bool) \<Rightarrow> wordle \<Rightarrow> nat list \<Rightarrow> nat list \<Rightarrow> py_error + (wordle \<times> decision_tree)" where
  "fast_solve expired self words guess_words =
     (case solve_guesses (cache_cost (matrix self)) expired (matrix self) words guess_words
             (global_guess_list self) 0 (hist self) (tree self) (4 * int (length words)) None of
        Inl e \<Rightarrow> Inl e
      | Inr (h, t, min_cost, guess) \<Rightarrow>
          (case finish_solve (guess_dict self) t guess (Guess_val guess) of
             Inl e \<Rightarrow> Inl e
           | Inr solution_tree \<Rightarrow> Inr (self\<lparr>hist := h, tree := t\<rparr>, solution_tree)))"

section \<open>Construction: the letter heuristic and the guess order\<close>

text \<open>
  \<^verbatim>\<open>letter_freqs\<close> is a \<^verbatim>\<open>defaultdict(int)\<close>: a letter never counted reads as 0.
  The constructor adds one for every letter of every word of \<^verbatim>\<open>word_dict\<close>.
\<close>

definition count_letters :: "string list \<Rightarrow> char \<Rightarrow> nat" where
  "count_letters word_dict =
     fold (\<lambda>word freqs. fold (\<lambda>letter f. f(letter := f letter + 1)) word freqs)
       word_dict (\<lambda>letter. 0)"

text \<open>\<^verbatim>\<open>h(g) = sum(self.letter_freqs[letter] for letter in set(self.guess_dict[g]))\<close>;
  the lookup \<^verbatim>\<open>self.guess_dict[g]\<close> raises outside the dictionary.\<close>

definition h :: "(char \<Rightarrow> nat) \<Rightarrow> str_seq \<Rightarrow> nat \<Rightarrow> py_error + nat" where
  "h freqs gd g =
     (case str_at gd g of
        Inl e \<Rightarrow> Inl e
      | Inr w \<Rightarrow> Inr (sum_list (map freqs (remdups w))))"

text \<open>
  \<^verbatim>\<open>sorted(xs, key=key, reverse=True)\<close>: the keys are computed first, one per element
  (the first exception of a key ends the call); the sort is stable, and with
  \<^verbatim>\<open>reverse=True\<close> it works on the reversed list and reverses the outcome, so elements
  with equal keys keep their order.
\<close>

fun all_keys :: "('a \<Rightarrow> py_error + 'k) \<Rightarrow> 'a list \<Rightarrow> py_error + 'k list" where
  "all_keys key [] = Inr []"
| "all_keys key (x # xs) =
     (case key x of
        Inl e \<Rightarrow> Inl e
      | Inr k \<Rightarrow> (case all_keys key xs of Inl e \<Rightarrow> Inl e | Inr ks \<Rightarrow> Inr (k # ks)))"

definition py_sorted_rev :: "('a \<Rightarrow> py_error + nat) \<Rightarrow> 'a list \<Rightarrow> py_error + 'a list" where
  "py_sorted_rev key xs =
     (case all_keys key xs of
        Inl e \<Rightarrow> Inl e
      | Inr ks \<Rightarrow> Inr (map snd (rev (sort_key fst (rev (zip ks xs))))))"

text \<open>
  \<^verbatim>\<open>__init__(M, word_dict, guess_dict, results_dict, global_guess_list=None)\<close>, the same
  in both classes; \<open>n\<close> is \<^verbatim>\<open>M.shape[0]\<close>, the number of rows of the matrix.
\<close>

definition init ::
  "outcome_matrix \<Rightarrow> nat \<Rightarrow> string list \<Rightarrow> str_seq \<Rightarrow> nat list option \<Rightarrow> py_error + wordle" where
  "init M n word_dict gd ggl =
     (case py_sorted_rev (h (count_letters word_dict) gd) [0..<n] of
        Inl e \<Rightarrow> Inl e
      | Inr order \<Rightarrow>
          Inr \<lparr>matrix = M, guess_dict = gd,
               global_guess_list =
                 (case ggl of None \<Rightarrow> order | Some l \<Rightarrow> if l = [] then order else l),
               hist = [], tree = Map.empty,
               letter_freqs = count_letters word_dict, guess_order = order\<rparr>)"

section \<open>The optimal cost the search is measured against\<close>

text \<open>
  The reference for the pruning claims follows the specification's words, not the code:
  the cost of a guess on a candidate set is one guess for every candidate plus the
  optimal cost of every result partition other than the exact match, the optimal cost is
  the least cost over the legal guesses, and nothing can be guessed once the depth
  exceeds the budget of six guesses.  A set that cannot be solved within the budget has
  cost \<open>\<infinity>\<close>.  The partitions narrow the candidates and, in hard mode, the guesses.
\<close>

function spec_optimal_cost :: "outcome_matrix \<Rightarrow> nat list \<Rightarrow> nat list \<Rightarrow> nat \<Rightarrow> enat" where
  "spec_optimal_cost M words guesses d =
     (if d > 5 then \<infinity>
      else
        fold min
          (map (\<lambda>g. enat (length words) +
                  sum_list
                    (map (\<lambda>r. spec_optimal_cost M (filter (\<lambda>w. M g w = r) words)
                                 (filter (\<lambda>g'. M g g' = r) guesses) (d + 1))
                       (filter (\<lambda>r. r \<noteq> 0) (remdups (map (M g) words)))))
             guesses)
          \<infinity>)"
  by pat_completeness auto
termination
  by (relation "measure (\<lambda>(M, words, guesses, d). 6 - d)") auto

text \<open>The cost of guessing \<open>g\<close> first at depth \<open>d\<close>.\<close>

definition spec_guess_cost :: "outcome_matrix \<Rightarrow> nat list \<Rightarrow> nat list \<Rightarrow> nat \<Rightarrow> nat \<Rightarrow> enat" where
  "spec_guess_cost M words guesses d g =
     enat (length words) +
     sum_list
       (map (\<lambda>r. spec_optimal_cost M (filter (\<lambda>w. M g w = r) words)
                    (filter (\<lambda>g'. M g g' = r) guesses) (d + 1))
          (filter (\<lambda>r. r \<noteq> 0) (remdups (map (M g) words))))"

text \<open>Result code 0 is the exact match: the guess is the secret word.\<close>

definition exact_match :: "outcome_matrix \<Rightarrow> bool" where
  "exact_match M = (\<forall>g w. (M g w = 0) = (g = w))"

text \<open>
  How a cost \<open>v\<close> returned under the bound \<open>a\<close> stands to a reference cost \<open>e\<close>: it is
  the reference cost when that is below the bound, and at least the bound when it is not.
  \<open>int_le_enat\<close> compares an integer cost with a reference cost.
\<close>

definition agrees :: "int \<Rightarrow> int \<Rightarrow> enat \<Rightarrow> bool" where
  "agrees a v e = (case e of enat k \<Rightarrow> (if int k < a then v = int k else a \<le> v) | \<infinity> \<Rightarrow> a \<le> v)"

definition int_le_enat :: "int \<Rightarrow> enat \<Rightarrow> bool" where
  "int_le_enat a e = (case e of enat k \<Rightarrow> a \<le> int k | \<infinity> \<Rightarrow> True)"

text \<open>A small outcome matrix for concrete runs: 0 for the exact match, 1 when the guess
  is the smaller identifier, 2 when it is the larger.\<close>

definition toy_matrix :: outcome_matrix where
  "toy_matrix g w = (if g = w then 0 else if g < w then 1 else 2)"

text \<open>A small answer dictionary and guess dictionary for concrete runs.\<close>

definition toy_words :: "string list" where
  "toy_words = [''ab'', ''bc'']"

definition toy_guesses :: str_seq where
  "toy_guesses = Np_array [''bb'', ''ab'', ''ca'', ''bc'']"

text \<open>A solver object over the toy data, as the constructor builds it.\<close>

definition toy_solver :: wordle where
  "toy_solver = \<lparr>matrix = toy_matrix, guess_dict = toy_guesses, global_guess_list = [1, 3, 0, 2],
      hist = [], tree = Map.empty, letter_freqs = count_letters toy_words,
      guess_order = [1, 3, 0, 2]\<rparr>"

text \<open>An outcome matrix in which the guess 0 gives every word a result code of its own
  (the word's identifier), and every other guess tells only whether the word is the
  guess, larger or smaller.  Code 0 is the exact match.\<close>

definition wide_matrix :: outcome_matrix where
  "wide_matrix g w = (if g = w then 0 else if g = 0 then w else if g < w then 1 else 2)"

text \<open>The candidates \<open>1, \<dots>, n\<close> and the guesses \<open>0, \<dots>, n\<close>.\<close>

definition wide_words :: "nat \<Rightarrow> nat list" where
  "wide_words n = [1..<Suc n]"

definition wide_guesses :: "nat \<Rightarrow> nat list" where
  "wide_guesses n = [0..<Suc n]"

declare solve_cost.simps [simp del]
declare fast_solve_cost.simps [simp del]
declare spec_optimal_cost.simps [simp del]

section \<open>Facts about the numpy operations\<close>

lemma take_idx_where:
  "take_idx xs (filter (\<lambda>i. Q (xs ! i)) [0..<length xs]) = filter Q xs"
proof -
  have "filter Q (map (\<lambda>i. xs ! i) [0..<length xs]) =
        map (\<lambda>i. xs ! i) (filter (Q \<circ> (\<lambda>i. xs ! i)) [0..<length xs])"
    by (rule filter_map)
  then show ?thesis by (simp add: take_idx_def map_nth comp_def)
qed

lemma narrow_filter: "narrow M g ws r = filter (\<lambda>w. M g w = r) ws"
proof -
  have "np_where_eq (row_at M g ws) r = filter (\<lambda>i. M g (ws ! i) = r) [0..<length ws]"
    by (auto simp: np_where_eq_def row_at_def intro: filter_cong)
  then show ?thesis
    unfolding narrow_def using take_idx_where [of ws "\<lambda>w. M g w = r"] by simp
qed

lemma mset_by_count: "mset (by_count rs) = mset (remdups rs)"
proof -
  define u where "u = sort (remdups rs)"
  define cs where "cs = map (count_list rs) u"
  have len: "length cs = length u" by (simp add: cs_def)
  have "mset (take_idx u (np_argsort cs)) = image_mset (\<lambda>i. u ! i) (mset (np_argsort cs))"
    by (simp add: take_idx_def)
  also have "mset (np_argsort cs) = mset [0..<length u]"
    by (simp add: np_argsort_def len)
  also have "image_mset (\<lambda>i. u ! i) (mset [0..<length u]) = mset (map (\<lambda>i. u ! i) [0..<length u])"
    by simp
  also have "\<dots> = mset u" by (simp add: map_nth)
  finally show ?thesis by (simp add: by_count_def np_unique_def u_def cs_def Let_def)
qed

lemma set_by_count: "set (by_count rs) = set rs"
  using mset_by_count [of rs] by (metis set_mset_mset set_remdups)

lemma distinct_by_count: "distinct (by_count rs)"
  using mset_by_count [of rs] by (metis distinct_remdups mset_eq_imp_distinct_iff)

lemma sum_counts: "sum_list (snd (np_unique xs)) = length xs"
proof -
  have "sum_list (map (count_list xs) (sort (remdups xs))) = sum (count_list xs) (set xs)"
    by (metis distinct_remdups distinct_sort set_remdups set_sort sum_list_distinct_conv_sum_set)
  then show ?thesis by (simp add: np_unique_def Let_def sum_count_set)
qed

lemma length_counts: "length (snd (np_unique xs)) = card (set xs)"
  by (simp add: np_unique_def Let_def length_remdups_card_conv)

lemma counts_nonempty: "xs \<noteq> [] \<Longrightarrow> snd (np_unique xs) \<noteq> []"
proof -
  assume "xs \<noteq> []"
  then have "length (sort (remdups xs)) \<noteq> 0" by simp
  then show ?thesis unfolding np_unique_def Let_def by (simp del: length_sort)
qed

lemma py_max_ok: "xs \<noteq> [] \<Longrightarrow> \<exists>m. py_max xs = Inr m"
  by (cases xs) (auto simp: py_max_def)

lemma useless_guess_ok: "words \<noteq> [] \<Longrightarrow> \<exists>b. useless_guess M g words = Inr b"
  using py_max_ok [OF counts_nonempty, of "row_at M g words"]
  by (auto simp: useless_guess_def row_at_def)

lemma narrow_nonempty: "r \<in> set (row_at M g words) \<Longrightarrow> narrow M g words r \<noteq> []"
  by (auto simp: narrow_filter row_at_def filter_empty_conv)

section \<open>The two solver classes run the same search\<close>

lemma fast_solve_cost_eq:
  "fast_solve_cost M words gw alpha d = solve_cost M words gw alpha d"
proof (induction M words gw alpha d rule: solve_cost.induct)
  case (1 M words gw alpha d)
  show ?case
  proof (cases "5 < d \<or> (d = 5 \<and> 1 < length words) \<or> length words \<le> 2")
    case True
    then show ?thesis
      by (subst fast_solve_cost.simps, subst solve_cost.simps) auto
  next
    case False
    then have "d < 5" by auto
    with False have "(\<lambda>ws gs a. cache_cost M ws gs a (d + 1)) = (\<lambda>ws gs a. solve_cost M ws gs a (d + 1))"
      using "1.IH" by (intro ext) auto
    then show ?thesis using False
      by (subst fast_solve_cost.simps, subst solve_cost.simps) simp
  qed
qed

lemma cache_cost_eq: "cache_cost M words gw alpha d = solve_cost M words gw alpha d"
  by (simp add: fast_solve_cost_eq)

section \<open>The search raises only on an empty candidate set\<close>

lemma result_loop_ok:
  assumes "\<And>r a. r \<in> set rs \<Longrightarrow> r \<noteq> 0 \<Longrightarrow> \<exists>x. rec (narrow M g words r) (narrow M g gw r) a = Inr x"
  shows "\<exists>c. result_loop rec M g words gw mc rs cost = Inr c"
  using assms
proof (induction rs arbitrary: cost)
  case Nil
  then show ?case by simp
next
  case (Cons r rs)
  show ?case
  proof (cases "mc \<le> cost \<or> r = 0")
    case True
    then show ?thesis using Cons by auto
  next
    case False
    then obtain x where "rec (narrow M g words r) (narrow M g gw r) (mc - cost) = Inr x"
      using Cons.prems [of r "mc - cost"] by auto
    then show ?thesis using False Cons.IH [of "cost + snd x"] Cons.prems
      by (cases x) auto
  qed
qed

lemma guess_loop_ok:
  assumes "words \<noteq> []" and "\<And>ws gs a. ws \<noteq> [] \<Longrightarrow> \<exists>x. rec ws gs a = Inr x"
  shows "\<exists>x. guess_loop rec M words gw gs mg mc = Inr x"
proof (induction gs arbitrary: mg mc)
  case Nil
  then show ?case by simp
next
  case (Cons g gs)
  obtain b where b: "useless_guess M g words = Inr b"
    using useless_guess_ok [OF assms(1)] by blast
  have "\<exists>c. result_loop rec M g words gw mc (by_count (row_at M g words)) (int (length words)) = Inr c"
    by (rule result_loop_ok) (metis set_by_count narrow_nonempty assms(2))
  then obtain c where c: "result_loop rec M g words gw mc (by_count (row_at M g words)) (int (length words)) = Inr c"
    by blast
  show ?case using Cons.IH b c by (cases b) (auto simp: Let_def)
qed

lemma solve_cost_ok: "words \<noteq> [] \<Longrightarrow> \<exists>x. solve_cost M words gw alpha d = Inr x"
proof (induction M words gw alpha d rule: solve_cost.induct)
  case (1 M words gw alpha d)
  show ?case
  proof (cases "5 < d \<or> (d = 5 \<and> 1 < length words) \<or> length words \<le> 2")
    case True
    then show ?thesis using "1.prems" by (subst solve_cost.simps) (cases words; auto)
  next
    case False
    have "\<exists>x. guess_loop (\<lambda>ws gs a. solve_cost M ws gs a (d + 1)) M words (sort gw) (sort gw) None alpha = Inr x"
      by (rule guess_loop_ok [OF "1.prems"]) (use False "1.IH" in auto)
    then show ?thesis using False by (subst solve_cost.simps) auto
  qed
qed

lemma solve_cost_empty: "d \<le> 5 \<Longrightarrow> solve_cost M [] gw alpha d = Inl IndexError"
  by (subst solve_cost.simps) auto

lemma solve_cost_error: "solve_cost M words gw alpha d = Inl e \<Longrightarrow> e = IndexError \<and> words = []"
proof (cases "words = []")
  case True
  assume "solve_cost M words gw alpha d = Inl e"
  then show ?thesis using True by (subst (asm) solve_cost.simps) (auto split: if_splits)
next
  case False
  assume "solve_cost M words gw alpha d = Inl e"
  then show ?thesis using solve_cost_ok [OF False, of M gw alpha d] by auto
qed

lemma solve_cost_lim_eq:
  "6 \<le> limit + d \<Longrightarrow> 1 \<le> limit \<Longrightarrow>
   solve_cost_lim limit M words gw alpha d = solve_cost M words gw alpha d"
proof (induction limit arbitrary: words gw alpha d)
  case 0
  then show ?case by simp
next
  case (Suc limit)
  show ?case
  proof (cases "5 < d \<or> (d = 5 \<and> 1 < length words) \<or> length words \<le> 2")
    case True
    then show ?thesis by (subst solve_cost.simps) auto
  next
    case False
    then have "6 \<le> limit + (d + 1)" "1 \<le> limit" using Suc.prems by auto
    then have "(\<lambda>ws gs a. solve_cost_lim limit M ws gs a (d + 1)) = (\<lambda>ws gs a. solve_cost M ws gs a (d + 1))"
      using Suc.IH by (intro ext) blast
    then show ?thesis using False by (subst solve_cost.simps) simp
  qed
qed

section \<open>Base cases of the search\<close>

lemma solve_cost_base:
  "1 \<le> length words \<Longrightarrow> length words \<le> 2 \<Longrightarrow> d \<le> 5 \<Longrightarrow> \<not> (d = 5 \<and> length words = 2) \<Longrightarrow>
   solve_cost M words guess_words alpha d = Inr (Some (hd words), 2 * int (length words) - 1)"
  by (subst solve_cost.simps) (cases words; auto simp: le_Suc_eq)

lemma solve_cost_exhausted:
  "d > 5 \<or> (d = 5 \<and> length words > 1) \<Longrightarrow>
   solve_cost M words guess_words alpha d = Inr (None, 10000)"
  by (subst solve_cost.simps) auto

lemma solve_cost_lim_one_base:
  "1 \<le> length words \<Longrightarrow> length words \<le> 2 \<Longrightarrow> d \<le> 5 \<Longrightarrow> \<not> (d = 5 \<and> length words = 2) \<Longrightarrow>
   solve_cost_lim 1 M words guess_words alpha d = Inr (Some (hd words), 2 * int (length words) - 1)"
  by (cases words) (auto simp: le_Suc_eq)

text \<open>
  Claim C3, as amended.  For a candidate set of one or two words, at a depth within the
  budget (\<open>d \<le> 5\<close>, and not \<open>d = 5\<close> with two words), \<^verbatim>\<open>solve_cost\<close> of either class
  returns the first candidate with cost \<open>2n - 1\<close>, whatever the guess list and \<open>alpha\<close>
  are, and without a recursive call: a limit of one nested call is enough.  The depth
  tests come first in the code, and the empty set has no first candidate.
\<close>

theorem solve_cost_small_set:
  "1 \<le> length words \<Longrightarrow> length words \<le> 2 \<Longrightarrow> d \<le> 5 \<Longrightarrow> \<not> (d = 5 \<and> length words = 2) \<Longrightarrow>
   solve_cost M words guess_words alpha d = Inr (Some (hd words), 2 * int (length words) - 1) \<and>
   fast_solve_cost M words guess_words alpha d = Inr (Some (hd words), 2 * int (length words) - 1) \<and>
   solve_cost_lim 1 M words guess_words alpha d = Inr (Some (hd words), 2 * int (length words) - 1)"
  by (metis fast_solve_cost_eq solve_cost_base solve_cost_lim_one_base)

theorem solve_cost_small_set_witness:
  "solve_cost toy_matrix [7, 9] [] (- 3) 4 = Inr (Some 7, 3) \<and>
   fast_solve_cost toy_matrix [7, 9] [] (- 3) 4 = Inr (Some 7, 3) \<and>
   solve_cost_lim 1 toy_matrix [7, 9] [] (- 3) 4 = Inr (Some 7, 3)"
proof -
  have "1 \<le> length [7, 9 :: nat]" "length [7, 9 :: nat] \<le> 2" "(4::nat) \<le> 5"
    "\<not> ((4::nat) = 5 \<and> length [7, 9 :: nat] = 2)" by simp_all
  from solve_cost_small_set [OF this, of toy_matrix "[]" "- 3"] show ?thesis by simp
qed

text \<open>
  Claim C3 as stated fails: two candidates at depth 5 and one candidate at depth 6 give
  the sentinel and no guess, and the empty candidate set (size \<open>0 \<le> 2\<close>) raises.
\<close>

theorem solve_cost_small_set_counterexample:
  "solve_cost toy_matrix [7, 9] [7, 9] 100 5 = Inr (None, 10000) \<and>
   solve_cost toy_matrix [7] [7] 100 6 = Inr (None, 10000) \<and>
   solve_cost toy_matrix [] [7] 100 0 = Inl IndexError"
  by (simp add: solve_cost.simps)

section \<open>Result partitions\<close>

text \<open>
  Claim C7.  The partitions of the candidates by the result code of a guess are pairwise
  disjoint, and over the distinct result codes (0 included) their union is the candidate
  set; taken together they hold every candidate exactly as often as the input does.
\<close>

theorem partitions_cover_candidates:
  "(\<forall>r1 r2. r1 \<noteq> r2 \<longrightarrow> set (narrow M g words r1) \<inter> set (narrow M g words r2) = {}) \<and>
   (\<Union>r \<in> set (fst (np_unique (row_at M g words))). set (narrow M g words r)) = set words \<and>
   mset (concat (map (narrow M g words) (fst (np_unique (row_at M g words))))) = mset words"
proof -
  have pick: "(\<Sum>r\<leftarrow>us. if f w = r then {#w#} else {#}) = {#w#}"
    if "distinct us" "f w \<in> set us" for f :: "nat \<Rightarrow> nat" and w us
    using that
  proof (induction us)
    case Nil
    then show ?case by simp
  next
    case (Cons u us)
    have "(\<Sum>r\<leftarrow>us. if f w = r then {#w#} else {#}) = {#}" if "f w \<notin> set us"
      using that by (induction us) auto
    then show ?case using Cons by auto
  qed
  have "(\<Sum>r\<leftarrow>us. mset (filter (\<lambda>w. f w = r) ws)) = mset ws"
    if "distinct us" "f ` set ws \<subseteq> set us" for f :: "nat \<Rightarrow> nat" and ws us
    using that
  proof (induction ws)
    case Nil
    then show ?case by (induction us) auto
  next
    case (Cons w ws)
    have "(\<Sum>r\<leftarrow>us. mset (filter (\<lambda>x. f x = r) (w # ws))) =
          (\<Sum>r\<leftarrow>us. (if f w = r then {#w#} else {#}) + mset (filter (\<lambda>x. f x = r) ws))"
      by (intro arg_cong [where f = sum_list] map_cong) auto
    also have "\<dots> = (\<Sum>r\<leftarrow>us. if f w = r then {#w#} else {#}) +
                     (\<Sum>r\<leftarrow>us. mset (filter (\<lambda>x. f x = r) ws))"
      by (rule sum_list_addf)
    also have "\<dots> = {#w#} + mset ws"
      using pick [of us f w] Cons by simp
    finally show ?case by simp
  qed
  from this [of "sort (remdups (row_at M g words))" "M g" words]
  have "mset (concat (map (narrow M g words) (fst (np_unique (row_at M g words))))) = mset words"
    by (simp add: narrow_filter [abs_def] np_unique_def Let_def row_at_def mset_concat comp_def)
  then show ?thesis
    by (auto simp: narrow_filter np_unique_def row_at_def Let_def)
qed

theorem partitions_cover_candidates_witness:
  "set (narrow toy_matrix 2 [1, 2, 3] 1) \<inter> set (narrow toy_matrix 2 [1, 2, 3] 2) = {} \<and>
   (\<Union>r \<in> set (fst (np_unique (row_at toy_matrix 2 [1, 2, 3]))).
      set (narrow toy_matrix 2 [1, 2, 3] r)) = {1, 2, 3}"
  using partitions_cover_candidates [of toy_matrix 2 "[1, 2, 3]"] by simp

section \<open>Termination and safety\<close>

lemma limit_five_too_small: "solve_cost_lim 5 toy_matrix [1, 2, 3, 4, 5, 6, 7, 8] [1, 2, 3, 4, 5, 6, 7, 8] 9999 0 = Inl RecursionError"
  by code_simp

text \<open>
  Claim C9.  Every call of \<^verbatim>\<open>solve_cost\<close> returns, and its nesting is bounded: run
  under a limit of \<open>6 - d\<close> nested calls (at least one, the call itself) it never hits
  the limit and gives the result of the unlimited function, which is also the result
  of \<^verbatim>\<open>FastWordle.solve_cost\<close>.  Six levels are enough for every input, and a call
  with \<open>d > 5\<close> needs only itself.
\<close>

theorem solve_cost_terminates:
  "max 1 (6 - d) \<le> limit \<Longrightarrow>
   solve_cost_lim limit M words gw alpha d = solve_cost M words gw alpha d \<and>
   solve_cost_lim limit M words gw alpha d = fast_solve_cost M words gw alpha d \<and>
   solve_cost_lim limit M words gw alpha d \<noteq> Inl RecursionError"
proof -
  assume a: "max 1 (6 - d) \<le> limit"
  then have e: "solve_cost_lim limit M words gw alpha d = solve_cost M words gw alpha d"
    by (intro solve_cost_lim_eq) auto
  moreover have "solve_cost M words gw alpha d \<noteq> Inl RecursionError"
    using solve_cost_error [of M words gw alpha d RecursionError] by auto
  ultimately show ?thesis by (simp add: fast_solve_cost_eq)
qed

theorem solve_cost_terminates_witness:
  "solve_cost_lim 6 toy_matrix [1, 2, 3, 4, 5, 6, 7, 8] [1, 2, 3, 4, 5, 6, 7, 8] 9999 0 =
     solve_cost toy_matrix [1, 2, 3, 4, 5, 6, 7, 8] [1, 2, 3, 4, 5, 6, 7, 8] 9999 0 \<and>
   solve_cost_lim 6 toy_matrix [1, 2, 3, 4, 5, 6, 7, 8] [1, 2, 3, 4, 5, 6, 7, 8] 9999 0 \<noteq> Inl RecursionError \<and>
   solve_cost_lim 5 toy_matrix [1, 2, 3, 4, 5, 6, 7, 8] [1, 2, 3, 4, 5, 6, 7, 8] 9999 0 = Inl RecursionError"
proof -
  have "max 1 (6 - 0) \<le> (6::nat)" by simp
  from solve_cost_terminates [OF this, of toy_matrix "[1, 2, 3, 4, 5, 6, 7, 8]"
      "[1, 2, 3, 4, 5, 6, 7, 8]" 9999]
  show ?thesis using limit_five_too_small by blast
qed

text \<open>
  Claim C10.  With at least one candidate \<^verbatim>\<open>solve_cost\<close> of either class returns a
  pair: the access \<^verbatim>\<open>words[0]\<close> is in bounds, in the call and in every call below
  it.  With no candidate and \<open>d \<le> 5\<close> the base case reads \<^verbatim>\<open>words[0]\<close> of an empty
  array and the call ends with \<^verbatim>\<open>IndexError\<close>.
\<close>

theorem solve_cost_safe_iff_nonempty:
  "(words \<noteq> [] \<longrightarrow>
      (\<exists>g c. solve_cost M words gw alpha d = Inr (g, c) \<and>
             fast_solve_cost M words gw alpha d = Inr (g, c))) \<and>
   (words = [] \<and> d \<le> 5 \<longrightarrow>
      solve_cost M words gw alpha d = Inl IndexError \<and>
      fast_solve_cost M words gw alpha d = Inl IndexError)"
  using solve_cost_ok [of words M gw alpha d] solve_cost_empty [of d M gw alpha]
  by (auto simp: fast_solve_cost_eq)

theorem solve_cost_safe_iff_nonempty_witness:
  "(\<exists>g c. solve_cost toy_matrix [1, 2, 3] [1, 2, 3] 100 0 = Inr (g, c) \<and>
          fast_solve_cost toy_matrix [1, 2, 3] [1, 2, 3] 100 0 = Inr (g, c)) \<and>
   solve_cost toy_matrix [] [1, 2, 3] 100 3 = Inl IndexError \<and>
   fast_solve_cost toy_matrix [] [1, 2, 3] 100 3 = Inl IndexError"
  using solve_cost_safe_iff_nonempty [of "[1, 2, 3]" toy_matrix "[1, 2, 3]" 100 0]
    solve_cost_safe_iff_nonempty [of "[]" toy_matrix "[1, 2, 3]" 100 3] by simp

section \<open>The static guess order\<close>

lemma fold_bump_word:
  "fold (\<lambda>letter f. f(letter := Suc (f letter))) word f0 c = f0 c + count_list word c"
  by (induction word arbitrary: f0) auto

lemma count_letters_total:
  "count_letters word_dict c = (\<Sum>w\<leftarrow>word_dict. count_list w c)"
proof -
  have "fold (\<lambda>word freqs. fold (\<lambda>letter f. f(letter := f letter + 1)) word freqs) ws f0 c =
        f0 c + (\<Sum>w\<leftarrow>ws. count_list w c)" for ws and f0 :: "char \<Rightarrow> nat"
    by (induction ws arbitrary: f0) (auto simp: fold_bump_word)
  then show ?thesis by (simp add: count_letters_def)
qed

lemma h_value:
  "g < length (items gd) \<Longrightarrow>
   h (count_letters word_dict) gd g =
     Inr (\<Sum>c\<in>set (items gd ! g). \<Sum>w\<leftarrow>word_dict. count_list w c)"
  by (simp add: h_def str_at_def sum_list_distinct_conv_sum_set count_letters_total)

lemma all_keys_Inr:
  "(\<And>x. x \<in> set xs \<Longrightarrow> key x = Inr (f x)) \<Longrightarrow> all_keys key xs = Inr (map f xs)"
  by (induction xs) auto

lemma insort_key_map:
  "insort_key k (g x) (map g ys) = map g (insort_key (\<lambda>y. k (g y)) x ys)"
  by (induction ys) auto

lemma sort_key_map: "sort_key k (map g xs) = map g (sort_key (\<lambda>y. k (g y)) xs)"
  by (induction xs) (auto simp: insort_key_map)

lemma py_sorted_rev_Inr:
  assumes "\<And>x. x \<in> set xs \<Longrightarrow> key x = Inr (f x)"
  shows "py_sorted_rev key xs = Inr (rev (sort_key f (rev xs)))"
proof -
  have z: "zip (map f xs) xs = map (\<lambda>x. (f x, x)) xs"
    by (induction xs) auto
  have "map snd (rev (sort_key fst (rev (map (\<lambda>x. (f x, x)) xs)))) = rev (sort_key f (rev xs))"
    by (simp add: rev_map sort_key_map comp_def)
  then show ?thesis
    by (simp add: py_sorted_rev_def all_keys_Inr [of xs key f, OF assms] z)
qed

lemma sorted_wrt_insort_key_ties:
  fixes f :: "nat \<Rightarrow> nat"
  assumes "sorted_wrt (\<lambda>a b. f a < f b \<or> (f a = f b \<and> b < a)) ys" "\<forall>y\<in>set ys. y < z"
  shows "sorted_wrt (\<lambda>a b. f a < f b \<or> (f a = f b \<and> b < a)) (insort_key f z ys)"
  using assms
proof (induction ys)
  case Nil
  then show ?case by simp
next
  case (Cons y ys)
  show ?case
  proof (cases "f z \<le> f y")
    case True
    then have "\<forall>y'\<in>set (y # ys). f z < f y' \<or> (f z = f y' \<and> y' < z)"
      using Cons.prems by fastforce
    then show ?thesis using True Cons.prems by simp
  next
    case False
    then show ?thesis using Cons by (auto simp: set_insort_key)
  qed
qed

lemma sorted_wrt_sort_key_ties:
  fixes f :: "nat \<Rightarrow> nat"
  assumes "sorted_wrt (\<lambda>a b. b < a) zs"
  shows "sorted_wrt (\<lambda>a b. f a < f b \<or> (f a = f b \<and> b < a)) (sort_key f zs)"
  using assms by (induction zs) (auto intro!: sorted_wrt_insort_key_ties)

lemma sorted_desc_stable:
  fixes f :: "nat \<Rightarrow> nat"
  assumes "sorted_wrt (<) xs"
  shows "sorted_wrt (\<lambda>a b. f b < f a \<or> (f a = f b \<and> a < b)) (rev (sort_key f (rev xs)))"
proof -
  have "sorted_wrt (\<lambda>a b. b < a) (rev xs)"
    using assms by (simp add: sorted_wrt_rev)
  from sorted_wrt_sort_key_ties [OF this, of f]
  show ?thesis by (simp add: sorted_wrt_rev eq_commute [of "f _" "f _"] cong: conj_cong)
qed

text \<open>
  Claim C8.  With every row of the matrix in the guess dictionary (\<open>n \<le> length (items gd)\<close>),
  the constructor succeeds, and its guess order holds every guess index below \<open>n\<close>
  once, sorted by heuristic value descending with equal values in ascending index order.
  The heuristic value of a guess is the sum, over the distinct letters of the guess, of
  the number of occurrences of the letter in all words of the answer dictionary.
\<close>

theorem guess_order_sorted:
  assumes "n \<le> length (items gd)"
  shows "\<exists>self. init M n word_dict gd ggl = Inr self \<and>
     mset (guess_order self) = mset [0..<n] \<and>
     sorted_wrt (\<lambda>a b.
        (\<Sum>c\<in>set (items gd ! b). \<Sum>w\<leftarrow>word_dict. count_list w c) < (\<Sum>c\<in>set (items gd ! a). \<Sum>w\<leftarrow>word_dict. count_list w c) \<or>
        ((\<Sum>c\<in>set (items gd ! a). \<Sum>w\<leftarrow>word_dict. count_list w c) = (\<Sum>c\<in>set (items gd ! b). \<Sum>w\<leftarrow>word_dict. count_list w c) \<and> a < b))
       (guess_order self) \<and>
     (\<forall>g<n. h (letter_freqs self) gd g = Inr (\<Sum>c\<in>set (items gd ! g). \<Sum>w\<leftarrow>word_dict. count_list w c))"
proof -
  define hv where "hv g = (\<Sum>c\<in>set (items gd ! g). \<Sum>w\<leftarrow>word_dict. count_list w c)" for g
  have key: "h (count_letters word_dict) gd g = Inr (hv g)" if "g \<in> set [0..<n]" for g
    using that assms by (simp add: h_value hv_def)
  have s: "py_sorted_rev (h (count_letters word_dict) gd) [0..<n] = Inr (rev (sort_key hv (rev [0..<n])))"
    by (rule py_sorted_rev_Inr) (rule key)
  have "sorted_wrt (\<lambda>a b. hv b < hv a \<or> (hv a = hv b \<and> a < b)) (rev (sort_key hv (rev [0..<n])))"
    by (rule sorted_desc_stable) (simp add: sorted_wrt_upt)
  then show ?thesis using key
    by (simp add: init_def s hv_def)
qed

theorem guess_order_sorted_witness:
  "\<exists>self. init toy_matrix 4 toy_words toy_guesses None = Inr self \<and>
          guess_order self = [1, 3, 0, 2] \<and> global_guess_list self = [1, 3, 0, 2]"
proof -
  have "4 \<le> length (items toy_guesses)" by (simp add: toy_guesses_def)
  from guess_order_sorted [OF this, of toy_matrix toy_words None]
  obtain self where s: "init toy_matrix 4 toy_words toy_guesses None = Inr self" by blast
  have "(case init toy_matrix 4 toy_words toy_guesses None of
           Inr s \<Rightarrow> guess_order s = [1, 3, 0, 2] \<and> global_guess_list s = [1, 3, 0, 2]
         | Inl e \<Rightarrow> False)"
    by code_simp
  with s show ?thesis by simp
qed

section \<open>The memoization cache does not memoize\<close>

lemma memo_solve_hit:
  "cache words = Some v \<Longrightarrow> memo_solve cache words gw = Some (cache, v)"
  by (subst memo_solve.simps) simp

lemma memo_solve_returns_hit:
  assumes "memo_solve cache words gw = Some r"
  shows "cache words \<noteq> None"
  by (rule memo_solve.raw_induct [where P = "\<lambda>c w g y. c w \<noteq> None", OF _ assms])
    (fastforce split: option.splits simp: bind_eq_Some_conv)

lemma memo_solve_miss: "cache words = None \<Longrightarrow> memo_solve cache words gw = None"
  using memo_solve_returns_hit [of cache words gw] by (cases "memo_solve cache words gw") auto

text \<open>
  Claim C2, as amended.  \<^verbatim>\<open>cache_cost\<close> stores and reuses nothing: every call runs
  \<^verbatim>\<open>solve_cost\<close> and returns its result, so \<^verbatim>\<open>FastWordle\<close> computes what the
  uncached engine computes.  \<^verbatim>\<open>_solve\<close> looks the cache up under the tuple of the
  words in the order given; when that key is present it returns the stored value and
  leaves the cache as it is.
\<close>

theorem cache_recomputes:
  "cache_cost M words gw alpha d = solve_cost M words gw alpha d \<and>
   fast_solve_cost M words gw alpha d = solve_cost M words gw alpha d \<and>
   (\<forall>v. cache words = Some v \<longrightarrow> memo_solve cache words gw = Some (cache, v))"
  by (simp add: cache_cost_eq fast_solve_cost_eq memo_solve_hit)

theorem cache_recomputes_witness:
  "cache_cost toy_matrix [1, 2, 3] [1, 2, 3] 100 0 = solve_cost toy_matrix [1, 2, 3] [1, 2, 3] 100 0 \<and>
   memo_solve [[1, 2, 3] \<mapsto> (Some (2::nat), 5::int)] [1, 2, 3] [1, 2, 3] =
     Some ([[1, 2, 3] \<mapsto> (Some 2, 5)], (Some 2, 5))"
  using cache_recomputes [of toy_matrix "[1, 2, 3]" "[1, 2, 3]" 100 0
      "[[1, 2, 3] \<mapsto> (Some (2::nat), 5::int)]"]
  by simp

text \<open>
  Claim C2 as stated fails: the key is the ordered tuple, so the same candidate set in
  another order misses the stored entry, and the miss gives no result.
\<close>

theorem cache_key_counterexample:
  "set [1, 2, 3] = set [3, 2, 1::nat] \<and>
   map_option snd (memo_solve [[1, 2, 3] \<mapsto> (Some (2::nat), 5::int)] [1, 2, 3] [1, 2, 3]) = Some (Some 2, 5) \<and>
   memo_solve [[1, 2, 3] \<mapsto> (Some (2::nat), 5::int)] [3, 2, 1] [1, 2, 3] = None"
proof -
  have "memo_solve [[1, 2, 3] \<mapsto> (Some (2::nat), 5::int)] [3, 2, 1] [1, 2, 3] = None"
    by (rule memo_solve_miss) simp
  moreover have "memo_solve [[1, 2, 3] \<mapsto> (Some (2::nat), 5::int)] [1, 2, 3] [1, 2, 3] =
      Some ([[1, 2, 3] \<mapsto> (Some 2, 5)], (Some 2, 5))"
    by (rule memo_solve_hit) simp
  ultimately show ?thesis by auto
qed

section \<open>The tree returned by the top-level solver\<close>

lemma toy_solve_run:
  "\<exists>s t. solve toy_solver [0, 1] [0, 1, 2, 3] = Inr (s, t) \<and>
         t [] = Some (Pair_val (Some 1) 3) \<and> t [1, 2] = Some (Pair_val (Some 0) 1) \<and>
         tree s [3, 2] = Some (Pair_val (Some 0) 3)"
proof -
  have "(case solve toy_solver [0, 1] [0, 1, 2, 3] of
           Inr (s, t) \<Rightarrow> t [] = Some (Pair_val (Some 1) 3) \<and> t [1, 2] = Some (Pair_val (Some 0) 1) \<and>
              tree s [3, 2] = Some (Pair_val (Some 0) 3)
         | Inl e \<Rightarrow> False)"
    by code_simp
  then show ?thesis by (cases "solve toy_solver [0, 1] [0, 1, 2, 3]") auto
qed

text \<open>
  Claim C5, as amended.  When \<^verbatim>\<open>solve\<close> returns, its loop ended with a winning first
  guess (or none) and a minimum total cost \<open>c\<close>, and the tree returned holds exactly
  the entries of the accumulated tree whose history begins with the winning guess, and
  a root entry for the empty history.  In \<^verbatim>\<open>HardWordle.solve\<close> the root entry is the
  pair of the guess and \<open>c\<close>; in \<^verbatim>\<open>FastWordle.solve\<close> it is the guess alone.
\<close>

theorem solve_tree_shape:
  "(solve self words gw = Inr (self', t) \<longrightarrow>
      (\<exists>guess c. solve_guesses (solve_cost (matrix self)) (\<lambda>i. False) (matrix self) words gw
                 (global_guess_list self) 0 (hist self) (tree self) (4 * int (length words)) None
               = Inr (hist self', tree self', c, guess) \<and>
             (\<forall>h. t h = (if h = [] then Some (Pair_val guess c)
                          else if Some (hd h) = guess then tree self' h else None)))) \<and>
   (fast_solve expired self words gw = Inr (self', t) \<longrightarrow>
      (\<exists>guess c. solve_guesses (cache_cost (matrix self)) expired (matrix self) words gw
                 (global_guess_list self) 0 (hist self) (tree self) (4 * int (length words)) None
               = Inr (hist self', tree self', c, guess) \<and>
             (\<forall>h. t h = (if h = [] then Some (Guess_val guess)
                          else if Some (hd h) = guess then tree self' h else None))))"
  by (auto simp: solve_def fast_solve_def finish_solve_def branches_of_def
           split: sum.splits option.splits if_splits prod.splits)

theorem solve_tree_shape_witness:
  "\<exists>s t. solve toy_solver [0, 1] [0, 1, 2, 3] = Inr (s, t) \<and>
         t [] = Some (Pair_val (Some 1) 3) \<and> t [1, 2] = tree s [1, 2] \<and>
         t [1, 2] = Some (Pair_val (Some 0) 1) \<and>
         tree s [3, 2] = Some (Pair_val (Some 0) 3) \<and> t [3, 2] = None"
proof -
  obtain s t where r: "solve toy_solver [0, 1] [0, 1, 2, 3] = Inr (s, t)"
      "t [] = Some (Pair_val (Some 1) 3)" "t [1, 2] = Some (Pair_val (Some 0) 1)"
      "tree s [3, 2] = Some (Pair_val (Some 0) 3)"
    using toy_solve_run by blast
  obtain g c where gc: "\<forall>h. t h = (if h = [] then Some (Pair_val g c)
                          else if Some (hd h) = g then tree s h else None)"
    using solve_tree_shape [of toy_solver "[0, 1]" "[0, 1, 2, 3]" s t] r(1) by blast
  have g: "g = Some 1" using gc r(2) by simp
  have "t [1, 2] = tree s [1, 2]" "t [3, 2] = None" using gc g by simp_all
  with r show ?thesis by blast
qed

text \<open>
  Claim C5 as stated fails for \<^verbatim>\<open>FastWordle.solve\<close>: the root entry of the tree it
  returns is the winning guess, not the pair of the guess and the cost that
  \<^verbatim>\<open>HardWordle.solve\<close> stores on the same input.
\<close>

theorem solve_tree_shape_counterexample:
  "map_sum id (\<lambda>r. snd r []) (fast_solve (\<lambda>i. False) toy_solver [0, 1] [0, 1, 2, 3]) =
     Inr (Some (Guess_val (Some 1))) \<and>
   map_sum id (\<lambda>r. snd r []) (solve toy_solver [0, 1] [0, 1, 2, 3]) =
     Inr (Some (Pair_val (Some 1) 3))"
  by code_simp

section \<open>The optimal cost: basic facts\<close>

lemma fold_min_Min: "fold min xs (a::enat) = Min (insert a (set xs))"
  using Min.set_eq_fold [of a xs] by simp

lemma opt_unfold:
  "d \<le> 5 \<Longrightarrow> spec_optimal_cost M W G d = Min (insert \<infinity> (spec_guess_cost M W G d ` set G))"
  by (subst spec_optimal_cost.simps) (simp add: fold_min_Min spec_guess_cost_def [abs_def])

lemma opt_over: "5 < d \<Longrightarrow> spec_optimal_cost M W G d = \<infinity>"
  by (subst spec_optimal_cost.simps) simp

lemma opt_le_guess: "g \<in> set G \<Longrightarrow> d \<le> 5 \<Longrightarrow> spec_optimal_cost M W G d \<le> spec_guess_cost M W G d g"
  by (simp add: opt_unfold)

lemma opt_ge:
  assumes "\<And>g. g \<in> set G \<Longrightarrow> d \<le> 5 \<Longrightarrow> c \<le> spec_guess_cost M W G d g"
  shows "c \<le> spec_optimal_cost M W G d"
proof (cases "d \<le> 5")
  case True
  then show ?thesis using assms by (simp add: opt_unfold)
next
  case False
  then show ?thesis by (simp add: opt_over)
qed

lemma opt_attained:
  assumes "spec_optimal_cost M W G d = enat k"
  shows "d \<le> 5 \<and> (\<exists>g\<in>set G. spec_guess_cost M W G d g = enat k)"
proof -
  have d: "d \<le> 5" using assms opt_over [of d M W G] by (cases "d \<le> 5") auto
  have "Min (insert \<infinity> (spec_guess_cost M W G d ` set G)) \<in> insert \<infinity> (spec_guess_cost M W G d ` set G)"
    by (rule Min_in) auto
  then show ?thesis using assms d by (auto simp: opt_unfold)
qed

lemma guess_cost_mono:
  assumes "\<And>r. r \<in> set (map (M g) W) \<Longrightarrow> r \<noteq> 0 \<Longrightarrow>
      spec_optimal_cost M (filter (\<lambda>w. M g w = r) W) (filter (\<lambda>g'. M g g' = r) G) (d + 1)
      \<le> spec_optimal_cost M (filter (\<lambda>w. M g w = r) W) (filter (\<lambda>g'. M g g' = r) G') (d' + 1)"
  shows "spec_guess_cost M W G d g \<le> spec_guess_cost M W G' d' g"
  unfolding spec_guess_cost_def
  by (intro add_left_mono sum_list_mono) (use assms in auto)

lemma opt_mono:
  "set G' \<subseteq> set G \<Longrightarrow> d \<le> d' \<Longrightarrow> spec_optimal_cost M W G d \<le> spec_optimal_cost M W G' d'"
proof (induction M W G' d' arbitrary: G d rule: spec_optimal_cost.induct)
  case (1 M W G' d')
  show ?case
  proof (rule opt_ge)
    fix g assume g: "g \<in> set G'" and d': "d' \<le> 5"
    have "spec_guess_cost M W G d g \<le> spec_guess_cost M W G' d' g"
    proof (rule guess_cost_mono)
      fix r assume r: "r \<in> set (map (M g) W)" "r \<noteq> 0"
      show "spec_optimal_cost M (filter (\<lambda>w. M g w = r) W) (filter (\<lambda>g'. M g g' = r) G) (d + 1)
      \<le> spec_optimal_cost M (filter (\<lambda>w. M g w = r) W) (filter (\<lambda>g'. M g g' = r) G') (d' + 1)"
        by (rule "1.IH") (use g d' r "1.prems" in auto)
    qed
    moreover have "spec_optimal_cost M W G d \<le> spec_guess_cost M W G d g"
      by (rule opt_le_guess) (use g d' "1.prems" in auto)
    ultimately show "spec_optimal_cost M W G d \<le> spec_guess_cost M W G' d' g" by simp
  qed
qed

lemma opt_set_cong:
  "set G = set G' \<Longrightarrow> spec_optimal_cost M W G d = spec_optimal_cost M W G' d"
  by (intro antisym opt_mono) auto

lemma length_filter_count: "length (filter (\<lambda>w. f w = r) W) = count_list (map f W) r"
  by (induction W) auto

lemma sum_count_remdups: "sum_list (map (count_list xs) (remdups xs)) = length xs"
proof -
  have "sum_list (map (count_list xs) (remdups xs)) = sum (count_list xs) (set xs)"
    by (metis distinct_remdups set_remdups sum_list_distinct_conv_sum_set)
  then show ?thesis by (simp add: sum_count_set)
qed

lemma sum_list_without_zero:
  fixes f :: "nat \<Rightarrow> int"
  assumes "distinct R"
  shows "(\<Sum>r\<leftarrow>filter (\<lambda>r. r \<noteq> 0) R. f r) = (\<Sum>r\<leftarrow>R. f r) - (if 0 \<in> set R then f 0 else 0)"
  using assms by (induction R) auto

lemma sum_list_two_minus_one:
  fixes c :: "nat \<Rightarrow> nat"
  shows "(\<Sum>r\<leftarrow>R. 2 * int (c r) - 1) = 2 * int (\<Sum>r\<leftarrow>R. c r) - int (length R)"
  by (induction R) auto

lemma sum_list_enat: "(\<Sum>x\<leftarrow>xs. enat (f x)) = enat (\<Sum>x\<leftarrow>xs. f x)"
  by (induction xs) (auto simp: zero_enat_def)

lemma min_possible_cost_formula:
  "min_possible_cost M g W =
     3 * int (length W) - int (length (remdups (map (M g) W))) - (if g \<in> set W then 1 else 0)"
  using sum_counts [of "row_at M g W"] length_counts [of "row_at M g W"]
  by (simp add: min_possible_cost_def split_beta row_at_def length_remdups_card_conv)

lemma min_possible_cost_ge:
  "2 * int (length W) - (if g \<in> set W then 1 else 0) \<le> min_possible_cost M g W"
proof -
  have "length (remdups (map (M g) W)) \<le> length W"
    using length_remdups_leq [of "map (M g) W"] by simp
  then show ?thesis by (simp add: min_possible_cost_formula)
qed

lemma exact_zero_iff:
  assumes "exact_match M"
  shows "0 \<in> set (map (M g) W) \<longleftrightarrow> g \<in> set W"
  using assms by (auto simp: exact_match_def)

lemma exact_zero_count:
  assumes "exact_match M" "distinct W" "g \<in> set W"
  shows "length (filter (\<lambda>w. M g w = 0) W) = 1"
proof -
  have "length (filter (\<lambda>w. M g w = 0) W) = length (filter (\<lambda>w. g = w) W)"
    using assms(1) by (simp add: exact_match_def)
  also have "\<dots> = count_list W g"
    by (simp add: count_list_eq_length_filter)
  also have "\<dots> = 1" using assms(2,3) by (metis count_mset distinct_count_atmost_1)
  finally show ?thesis by simp
qed

section \<open>The lower bound on the cost of a guess\<close>

lemma partition_bound_sum:
  assumes "exact_match M" "distinct W"
  shows "int (length W) +
           (\<Sum>r\<leftarrow>filter (\<lambda>r. r \<noteq> 0) (remdups (map (M g) W)).
               2 * int (length (filter (\<lambda>w. M g w = r) W)) - 1)
         = min_possible_cost M g W"
proof -
  define R where "R = remdups (map (M g) W)"
  define c where "c r = length (filter (\<lambda>w. M g w = r) W)" for r
  have dR: "distinct R" by (simp add: R_def)
  have total: "(\<Sum>r\<leftarrow>R. c r) = length W"
    using sum_count_remdups [of "map (M g) W"]
    by (simp add: R_def c_def [abs_def] length_filter_count)
  have zero: "(if 0 \<in> set R then 2 * int (c 0) - 1 else 0) = (if g \<in> set W then 1 else 0)"
    using exact_zero_iff [OF assms(1), of g W] exact_zero_count [OF assms, of g]
    by (auto simp: R_def c_def)
  have "(\<Sum>r\<leftarrow>filter (\<lambda>r. r \<noteq> 0) R. 2 * int (c r) - 1) =
        (\<Sum>r\<leftarrow>R. 2 * int (c r) - 1) - (if 0 \<in> set R then 2 * int (c 0) - 1 else 0)"
    by (rule sum_list_without_zero [OF dR])
  also have "\<dots> = 2 * int (length W) - int (length R) - (if g \<in> set W then 1 else 0)"
    by (simp only: sum_list_two_minus_one total zero)
  finally show ?thesis
    by (simp add: min_possible_cost_formula R_def c_def)
qed

lemma guess_cost_lower_aux:
  assumes "exact_match M" "distinct W"
    and part: "\<And>r. r \<in> set (map (M g) W) \<Longrightarrow> r \<noteq> 0 \<Longrightarrow>
      enat (2 * length (filter (\<lambda>w. M g w = r) W) - 1)
        \<le> spec_optimal_cost M (filter (\<lambda>w. M g w = r) W) (filter (\<lambda>g'. M g g' = r) G) (d + 1)"
  shows "enat (nat (min_possible_cost M g W)) \<le> spec_guess_cost M W G d g"
proof -
  define R0 where "R0 = filter (\<lambda>r. r \<noteq> 0) (remdups (map (M g) W))"
  define c where "c r = length (filter (\<lambda>w. M g w = r) W)" for r
  have pos: "1 \<le> c r" if "r \<in> set R0" for r
  proof -
    from that obtain w where "w \<in> set W" "M g w = r" by (auto simp: R0_def)
    then have "filter (\<lambda>w. M g w = r) W \<noteq> []" by (auto simp: filter_empty_conv)
    then show ?thesis by (simp add: c_def Suc_le_eq)
  qed
  have "int (\<Sum>r\<leftarrow>R0. 2 * c r - 1) = (\<Sum>r\<leftarrow>R0. int (2 * c r - 1))"
    by (induction R0) auto
  also have "\<dots> = (\<Sum>r\<leftarrow>R0. 2 * int (c r) - 1)"
  proof (intro arg_cong [where f = sum_list] map_cong refl)
    fix r assume "r \<in> set R0"
    from pos [OF this] show "int (2 * c r - 1) = 2 * int (c r) - 1" by linarith
  qed
  finally have "int (\<Sum>r\<leftarrow>R0. 2 * c r - 1) = (\<Sum>r\<leftarrow>R0. 2 * int (c r) - 1)" .
  then have "int (length W + (\<Sum>r\<leftarrow>R0. 2 * c r - 1)) = min_possible_cost M g W"
    using partition_bound_sum [OF assms(1,2), of g] by (simp add: R0_def c_def)
  then have n: "nat (min_possible_cost M g W) = length W + (\<Sum>r\<leftarrow>R0. 2 * c r - 1)"
    by linarith
  have "(\<Sum>r\<leftarrow>R0. enat (2 * c r - 1)) \<le>
        (\<Sum>r\<leftarrow>R0. spec_optimal_cost M (filter (\<lambda>w. M g w = r) W) (filter (\<lambda>g'. M g g' = r) G) (d + 1))"
    by (rule sum_list_mono) (use part in \<open>auto simp: R0_def c_def\<close>)
  then have "enat (length W) + enat (\<Sum>r\<leftarrow>R0. 2 * c r - 1) \<le> spec_guess_cost M W G d g"
    unfolding spec_guess_cost_def R0_def [symmetric] sum_list_enat [symmetric]
    by (rule add_left_mono)
  then show ?thesis by (simp add: n)
qed

lemma opt_lower:
  "exact_match M \<Longrightarrow> distinct W \<Longrightarrow> W \<noteq> [] \<Longrightarrow>
   enat (2 * length W - 1) \<le> spec_optimal_cost M W G d"
proof (induction M W G d rule: spec_optimal_cost.induct)
  case (1 M W G d)
  show ?case
  proof (rule opt_ge)
    fix g assume g: "g \<in> set G" and d: "d \<le> 5"
    have "enat (nat (min_possible_cost M g W)) \<le> spec_guess_cost M W G d g"
    proof (rule guess_cost_lower_aux [OF "1.prems"(1,2)])
      fix r assume r: "r \<in> set (map (M g) W)" "r \<noteq> 0"
      then have ne: "filter (\<lambda>w. M g w = r) W \<noteq> []" by (auto simp: filter_empty_conv)
      show "enat (2 * length (filter (\<lambda>w. M g w = r) W) - 1)
        \<le> spec_optimal_cost M (filter (\<lambda>w. M g w = r) W) (filter (\<lambda>g'. M g g' = r) G) (d + 1)"
        by (rule "1.IH") (use g d r ne "1.prems" in auto)
    qed
    moreover have "2 * length W - 1 \<le> nat (min_possible_cost M g W)"
      using min_possible_cost_ge [of W g M] by (auto split: if_splits)
    ultimately show "enat (2 * length W - 1) \<le> spec_guess_cost M W G d g"
      by (meson enat_ord_simps(1) order_trans)
  qed
qed

lemma guess_cost_lower:
  assumes "exact_match M" "distinct W"
  shows "enat (nat (min_possible_cost M g W)) \<le> spec_guess_cost M W G d g"
proof (rule guess_cost_lower_aux [OF assms])
  fix r assume r: "r \<in> set (map (M g) W)" "r \<noteq> 0"
  then have ne: "filter (\<lambda>w. M g w = r) W \<noteq> []" by (auto simp: filter_empty_conv)
  show "enat (2 * length (filter (\<lambda>w. M g w = r) W) - 1)
        \<le> spec_optimal_cost M (filter (\<lambda>w. M g w = r) W) (filter (\<lambda>g'. M g g' = r) G) (d + 1)"
    by (rule opt_lower) (use assms ne in auto)
qed

lemma exact_match_toy: "exact_match toy_matrix"
  by (simp add: exact_match_def toy_matrix_def)

lemma min_possible_cost_nonneg: "0 \<le> min_possible_cost M g W"
proof (cases "W = []")
  case True
  then show ?thesis by (simp add: min_possible_cost_formula)
next
  case False
  then have "1 \<le> int (length W)" by (cases W) auto
  then show ?thesis using min_possible_cost_ge [of W g M] by (auto split: if_splits)
qed

text \<open>
  Claim C6.  For an outcome matrix whose code 0 is the exact match and a candidate set
  without repetitions, \<^verbatim>\<open>min_possible_cost\<close> (\<open>n + 2 * sum(counts) - len(counts) -
  (g in words)\<close>) is at most the cost of guessing \<open>g\<close> first.  So when the loop over
  the guesses skips \<open>g\<close> because the bound has reached the best cost so far, the guess
  could not have cost less than that best cost.
\<close>

theorem lower_bound_admissible:
  assumes "exact_match M" "distinct words"
  shows "0 \<le> min_possible_cost M g words \<and>
         enat (nat (min_possible_cost M g words)) \<le> spec_guess_cost M words guesses d g \<and>
         (\<forall>best. best \<le> min_possible_cost M g words \<longrightarrow>
            guess_loop rec M words gw (g # gs) mg best = guess_loop rec M words gw gs mg best \<and>
            \<not> spec_guess_cost M words guesses d g < enat (nat best))"
proof -
  have lb: "enat (nat (min_possible_cost M g words)) \<le> spec_guess_cost M words guesses d g"
    by (rule guess_cost_lower [OF assms])
  have "\<not> spec_guess_cost M words guesses d g < enat (nat best)"
    if "best \<le> min_possible_cost M g words" for best
  proof -
    have "enat (nat best) \<le> enat (nat (min_possible_cost M g words))" using that by simp
    then show ?thesis using lb by (meson not_le order_trans)
  qed
  then show ?thesis using lb min_possible_cost_nonneg [of M g words] by simp
qed


theorem lower_bound_admissible_witness:
  "min_possible_cost toy_matrix 1 [1, 2, 3] = 6 \<and>
   spec_guess_cost toy_matrix [1, 2, 3] [1, 2, 3] 0 1 = 6 \<and>
   enat (nat (min_possible_cost toy_matrix 1 [1, 2, 3])) \<le> spec_guess_cost toy_matrix [1, 2, 3] [1, 2, 3] 0 1 \<and>
   guess_loop (\<lambda>ws gs a. solve_cost toy_matrix ws gs a 1) toy_matrix [1, 2, 3] [1, 2, 3] [1, 2, 3] (Some 2) 5 =
   guess_loop (\<lambda>ws gs a. solve_cost toy_matrix ws gs a 1) toy_matrix [1, 2, 3] [1, 2, 3] [2, 3] (Some 2) 5"
proof -
  have m: "min_possible_cost toy_matrix 1 [1, 2, 3] = 6" by code_simp
  have c: "spec_guess_cost toy_matrix [1, 2, 3] [1, 2, 3] 0 1 = 6" by code_simp
  have d: "distinct [1, 2, 3 :: nat]" by simp
  from lower_bound_admissible [OF exact_match_toy d, of 1 "[1, 2, 3]" 0
      "\<lambda>ws gs a. solve_cost toy_matrix ws gs a 1" "[1, 2, 3]" "[2, 3]" "Some 2"]
  show ?thesis using m c by simp
qed

section \<open>The two loops of the search, against the optimal cost\<close>

lemma agrees_nonneg: "agrees a v e \<Longrightarrow> 0 < a \<Longrightarrow> 0 \<le> v"
  by (auto simp: agrees_def split: enat.splits if_splits)

lemma agrees_ge: "a \<le> v \<Longrightarrow> enat (nat a) \<le> e \<Longrightarrow> agrees a v e"
  by (auto simp: agrees_def split: enat.splits)

lemma result_loop_break: "mc \<le> cost \<Longrightarrow> result_loop rec M g W gw mc rs cost = Inr cost"
  by (cases rs) auto

lemma result_loop_sound:
  assumes rec: "\<And>r a. r \<in> set rs \<Longrightarrow> r \<noteq> 0 \<Longrightarrow> 0 < a \<Longrightarrow> a \<le> 10000 \<Longrightarrow>
      \<exists>x v. rec (narrow M g W r) (narrow M g gw r) a = Inr (x, v) \<and> agrees a v (opt r)"
    and "0 \<le> cost" "mc \<le> 10000"
  shows "\<exists>c. result_loop rec M g W gw mc rs cost = Inr c \<and>
             agrees mc c (enat (nat cost) + sum_list (map opt (filter (\<lambda>r. r \<noteq> 0) rs)))"
  using assms
proof (induction rs arbitrary: cost)
  case Nil
  then show ?case by (simp add: agrees_def)
next
  case (Cons r rs)
  let ?T = "enat (nat cost) + sum_list (map opt (filter (\<lambda>r. r \<noteq> 0) (r # rs)))"
  show ?case
  proof (cases "mc \<le> cost")
    case True
    have "enat (nat mc) \<le> ?T"
      using True by (metis enat_ord_simps(1) le_iff_add nat_mono order_trans)
    then show ?thesis using True by (simp add: agrees_ge)
  next
    case brk: False
    show ?thesis
    proof (cases "r = 0")
      case True
      then show ?thesis using brk Cons.IH [of cost] Cons.prems by simp
    next
      case False
      have a: "0 < mc - cost" "mc - cost \<le> 10000" using brk Cons.prems by auto
      obtain x v where rv: "rec (narrow M g W r) (narrow M g gw r) (mc - cost) = Inr (x, v)"
          and ag: "agrees (mc - cost) v (opt r)"
        using Cons.prems(1) [of r "mc - cost"] False a by auto
      have v0: "0 \<le> v" using agrees_nonneg [OF ag a(1)] .
      have "\<exists>c. result_loop rec M g W gw mc rs (cost + v) = Inr c \<and>
             agrees mc c (enat (nat (cost + v)) + sum_list (map opt (filter (\<lambda>r. r \<noteq> 0) rs)))"
        by (rule Cons.IH) (use Cons.prems v0 in auto)
      then obtain c where c: "result_loop rec M g W gw mc rs (cost + v) = Inr c"
          and ih: "agrees mc c (enat (nat (cost + v)) + sum_list (map opt (filter (\<lambda>r. r \<noteq> 0) rs)))"
        by blast
      have run: "result_loop rec M g W gw mc (r # rs) cost = Inr c"
        using brk False rv c by simp
      show ?thesis
      proof (cases "\<exists>k. opt r = enat k \<and> int k < mc - cost")
        case True
        then obtain k where k: "opt r = enat k" "int k < mc - cost" by blast
        then have "v = int k" using ag by (simp add: agrees_def)
        then have "enat (nat (cost + v)) = enat (nat cost) + opt r"
          using k Cons.prems(2) by (simp add: nat_add_distrib)
        then show ?thesis using run ih False by (simp add: add.assoc)
      next
        case False
        then have big: "mc - cost \<le> v" "enat (nat (mc - cost)) \<le> opt r"
          using ag by (auto simp: agrees_def split: enat.splits if_splits)
        then have "result_loop rec M g W gw mc rs (cost + v) = Inr (cost + v)"
          by (intro result_loop_break) simp
        then have cv: "c = cost + v" using c by simp
        have "enat (nat mc) \<le> enat (nat cost) + enat (nat (mc - cost))"
          using Cons.prems(2) by simp
        also have "\<dots> \<le> enat (nat cost) + opt r" using big(2) by (rule add_left_mono)
        also have "\<dots> \<le> ?T" using \<open>r \<noteq> 0\<close> by (simp add: add.assoc [symmetric])
        finally show ?thesis using run cv big(1) by (auto intro!: agrees_ge)
      qed
    qed
  qed
qed

lemma int_le_enat_mono: "a \<le> b \<Longrightarrow> int_le_enat b e \<Longrightarrow> int_le_enat a e"
  by (auto simp: int_le_enat_def split: enat.splits)

lemma int_le_enat_trans: "int_le_enat a (enat (nat b)) \<Longrightarrow> enat (nat b) \<le> e \<Longrightarrow> int_le_enat a e"
proof (cases e)
  case (enat k)
  assume "int_le_enat a (enat (nat b))" "enat (nat b) \<le> e"
  then have "a \<le> int (nat b)" "nat b \<le> k" using enat by (simp_all add: int_le_enat_def)
  then have "a \<le> int k" by linarith
  then show ?thesis using enat by (simp add: int_le_enat_def)
next
  case infinity
  then show ?thesis by (simp add: int_le_enat_def)
qed

lemma int_le_enat_nat: "a \<le> b \<Longrightarrow> int_le_enat a (enat (nat b))"
  by (auto simp: int_le_enat_def)

lemma agrees_cases:
  assumes "agrees mc c e"
  shows "(c < mc \<longrightarrow> e = enat (nat c) \<and> 0 \<le> c) \<and> int_le_enat (min c mc) e"
  using assms by (auto simp: agrees_def int_le_enat_def split: enat.splits if_splits)

lemma sum_list_by_count:
  fixes f :: "nat \<Rightarrow> enat"
  shows "sum_list (map f (filter P (by_count rs))) = sum_list (map f (filter P (remdups rs)))"
proof -
  have "mset (map f (filter P (by_count rs))) = mset (map f (filter P (remdups rs)))"
    by (simp add: mset_by_count)
  then show ?thesis by (metis sum_mset_sum_list)
qed

lemma result_loop_guess_cost:
  assumes rec: "\<And>r a. r \<in> set (map (M g) W) \<Longrightarrow> r \<noteq> 0 \<Longrightarrow> 0 < a \<Longrightarrow> a \<le> 10000 \<Longrightarrow>
      \<exists>x v. rec (narrow M g W r) (narrow M g gw r) a = Inr (x, v) \<and>
            agrees a v (spec_optimal_cost M (narrow M g W r) (narrow M g gw r) (d + 1))"
    and "mc \<le> 10000"
  shows "\<exists>c. result_loop rec M g W gw mc (by_count (row_at M g W)) (int (length W)) = Inr c \<and>
             agrees mc c (spec_guess_cost M W gw d g)"
proof -
  let ?opt = "\<lambda>r. spec_optimal_cost M (narrow M g W r) (narrow M g gw r) (d + 1)"
  have "\<exists>c. result_loop rec M g W gw mc (by_count (row_at M g W)) (int (length W)) = Inr c \<and>
      agrees mc c (enat (nat (int (length W))) +
         sum_list (map ?opt (filter (\<lambda>r. r \<noteq> 0) (by_count (row_at M g W)))))"
  proof (rule result_loop_sound)
    fix r :: nat and a :: int
    assume "r \<in> set (by_count (row_at M g W))" "r \<noteq> 0" "0 < a" "a \<le> 10000"
    then show "\<exists>x v. rec (narrow M g W r) (narrow M g gw r) a = Inr (x, v) \<and> agrees a v (?opt r)"
      using rec [of r a] by (simp add: set_by_count row_at_def)
  qed (use assms(2) in simp_all)
  moreover have "enat (nat (int (length W))) +
         sum_list (map ?opt (filter (\<lambda>r. r \<noteq> 0) (by_count (row_at M g W)))) =
       spec_guess_cost M W gw d g"
    unfolding spec_guess_cost_def sum_list_by_count row_at_def narrow_filter by simp
  ultimately show ?thesis by simp
qed

lemma count_list_full: "count_list xs u = length xs \<Longrightarrow> \<forall>x\<in>set xs. x = u"
proof (induction xs)
  case Nil
  then show ?case by simp
next
  case (Cons x xs)
  have "count_list xs u \<le> length xs" by (rule count_le_length)
  then show ?case using Cons by (auto split: if_splits)
qed

lemma remdups_all_equal: "\<forall>x\<in>set xs. x = u \<Longrightarrow> xs \<noteq> [] \<Longrightarrow> remdups xs = [u]"
proof (induction xs)
  case Nil
  then show ?case by simp
next
  case (Cons x xs)
  have x: "x = u" using Cons.prems(1) by simp
  show ?case
  proof (cases "xs = []")
    case True
    then show ?thesis using x by simp
  next
    case False
    then have "remdups xs = [u]" using Cons by simp
    moreover have "u \<in> set xs" using False Cons.prems(1) by (cases xs) simp_all
    ultimately show ?thesis using x by simp
  qed
qed

lemma py_max_Max: "xs \<noteq> [] \<Longrightarrow> py_max xs = Inr (Max (set xs))"
proof (cases xs)
  case Nil
  assume "xs \<noteq> []"
  with Nil show ?thesis by simp
next
  case (Cons y ys)
  then show ?thesis using Max.set_eq_fold [of y ys] by (simp add: py_max_def)
qed

lemma useless_guess_True:
  assumes "useless_guess M g W = Inr True" "W \<noteq> []"
  shows "g \<notin> set W \<and> (\<exists>u. \<forall>w\<in>set W. M g w = u)"
proof -
  define rs where "rs = map (M g) W"
  define cs where "cs = snd (np_unique (row_at M g W))"
  have g: "g \<notin> set W" using assms(1) by (auto simp: useless_guess_def split: if_splits)
  have ne: "cs \<noteq> []" unfolding cs_def
    by (rule counts_nonempty) (simp add: row_at_def assms(2))
  have "useless_guess M g W = Inr (Max (set cs) = length W)"
    using g py_max_Max [OF ne] by (simp add: useless_guess_def cs_def)
  then have mx: "Max (set cs) = length W" using assms(1) by simp
  have "Max (set cs) \<in> set cs" using ne by (intro Max_in) simp_all
  moreover have "set cs = count_list rs ` set rs"
    by (simp add: cs_def rs_def np_unique_def Let_def row_at_def)
  ultimately obtain u where "count_list rs u = Max (set cs)" by (metis imageE)
  then have "count_list rs u = length rs" using mx by (simp add: rs_def)
  from count_list_full [OF this] have "\<forall>w\<in>set W. M g w = u" by (simp add: rs_def)
  then show ?thesis using g by blast
qed

lemma useless_cost:
  assumes "exact_match M" "W \<noteq> []" "useless_guess M g W = Inr True"
  shows "enat (length W) + spec_optimal_cost M W gw d \<le> spec_guess_cost M W gw d g"
proof -
  obtain u where g: "g \<notin> set W" and u: "\<forall>w\<in>set W. M g w = u"
    using useless_guess_True [OF assms(3,2)] by blast
  have u0: "u \<noteq> 0"
  proof
    assume "u = 0"
    then have "\<forall>w\<in>set W. g = w" using u assms(1) by (auto simp: exact_match_def)
    then show False using g assms(2) by (cases W) auto
  qed
  have r: "remdups (map (M g) W) = [u]"
    by (rule remdups_all_equal) (use u assms(2) in auto)
  have f: "filter (\<lambda>w. M g w = u) W = W" using u by (simp add: filter_id_conv)
  have "spec_guess_cost M W gw d g =
        enat (length W) + spec_optimal_cost M W (filter (\<lambda>g'. M g g' = u) gw) (d + 1)"
    by (simp add: spec_guess_cost_def r u0 f)
  moreover have "spec_optimal_cost M W gw d \<le> spec_optimal_cost M W (filter (\<lambda>g'. M g g' = u) gw) (d + 1)"
    by (rule opt_mono) auto
  ultimately show ?thesis by (simp add: add_left_mono)
qed

lemma guess_never_below_small:
  assumes "exact_match M" "distinct W"
  shows "int_le_enat (2 * int (length W) - 1) (spec_guess_cost M W gw d g)"
proof -
  have "2 * int (length W) - 1 \<le> min_possible_cost M g W"
    using min_possible_cost_ge [of W g M] by (auto split: if_splits)
  then have "int_le_enat (2 * int (length W) - 1) (enat (nat (min_possible_cost M g W)))"
    by (rule int_le_enat_nat)
  then show ?thesis
    using guess_cost_lower [OF assms, of g gw d] by (rule int_le_enat_trans)
qed

lemma guess_loop_sound:
  assumes ex: "exact_match M" and dW: "distinct W" and ne: "W \<noteq> []"
    and rec: "\<And>g r a. g \<in> set gs \<Longrightarrow> r \<in> set (map (M g) W) \<Longrightarrow> r \<noteq> 0 \<Longrightarrow> 0 < a \<Longrightarrow> a \<le> 10000 \<Longrightarrow>
      \<exists>x v. rec (narrow M g W r) (narrow M g gw r) a = Inr (x, v) \<and>
            agrees a v (spec_optimal_cost M (narrow M g W r) (narrow M g gw r) (d + 1))"
    and mc: "mc \<le> 10000"
  shows "\<exists>mg' mc'. guess_loop rec M W gw gs mg mc = Inr (mg', mc') \<and> mc' \<le> mc \<and>
      (\<forall>g\<in>set gs. useless_guess M g W \<noteq> Inr True \<longrightarrow> int_le_enat mc' (spec_guess_cost M W gw d g)) \<and>
      (mc' < mc \<longrightarrow> (\<exists>g\<in>set gs. spec_guess_cost M W gw d g = enat (nat mc') \<and> 0 \<le> mc' \<and> mg' = Some g)) \<and>
      (mc' = mc \<longrightarrow> mg' = mg)"
  using rec mc
proof (induction gs arbitrary: mg mc)
  case Nil
  then show ?case by simp
next
  case (Cons g gs)
  let ?gc = "\<lambda>g. spec_guess_cost M W gw d g"
  let ?mpc = "min_possible_cost M g W"
  let ?n = "int (length W)"
  have lb: "enat (nat ?mpc) \<le> ?gc g" by (rule guess_cost_lower [OF ex dW])
  have recs: "\<And>g' r a. g' \<in> set gs \<Longrightarrow> r \<in> set (map (M g') W) \<Longrightarrow> r \<noteq> 0 \<Longrightarrow> 0 < a \<Longrightarrow> a \<le> 10000 \<Longrightarrow>
      \<exists>x v. rec (narrow M g' W r) (narrow M g' gw r) a = Inr (x, v) \<and>
            agrees a v (spec_optimal_cost M (narrow M g' W r) (narrow M g' gw r) (d + 1))"
    using Cons.prems(1) by simp
  have IH: "\<exists>mg' mc'. guess_loop rec M W gw gs mg1 mc1 = Inr (mg', mc') \<and> mc' \<le> mc1 \<and>
      (\<forall>g\<in>set gs. useless_guess M g W \<noteq> Inr True \<longrightarrow> int_le_enat mc' (?gc g)) \<and>
      (mc' < mc1 \<longrightarrow> (\<exists>g\<in>set gs. ?gc g = enat (nat mc') \<and> 0 \<le> mc' \<and> mg' = Some g)) \<and>
      (mc' = mc1 \<longrightarrow> mg' = mg1)" if "mc1 \<le> 10000" for mg1 mc1
    using Cons.IH [OF recs that] by blast
  show ?case
  proof (cases "mc \<le> ?mpc")
    case True
    then have step: "guess_loop rec M W gw (g # gs) mg mc = guess_loop rec M W gw gs mg mc"
      by simp
    obtain mg' mc' where r: "guess_loop rec M W gw gs mg mc = Inr (mg', mc')" "mc' \<le> mc"
        "\<forall>g\<in>set gs. useless_guess M g W \<noteq> Inr True \<longrightarrow> int_le_enat mc' (?gc g)"
        "mc' < mc \<longrightarrow> (\<exists>g\<in>set gs. ?gc g = enat (nat mc') \<and> 0 \<le> mc' \<and> mg' = Some g)"
        "mc' = mc \<longrightarrow> mg' = mg"
      using IH [OF Cons.prems(2), of mg] by blast
    have "int_le_enat mc' (enat (nat ?mpc))"
      using True r(2) by (intro int_le_enat_nat) simp
    then have "int_le_enat mc' (?gc g)" using lb by (rule int_le_enat_trans)
    then show ?thesis using step r by auto
  next
    case skip: False
    have notdead: "\<not> (g \<notin> set W \<and> mc = 2 * ?n)"
      using skip min_possible_cost_ge [of W g M] by (auto split: if_splits)
    obtain b where b: "useless_guess M g W = Inr b"
      using useless_guess_ok [OF ne] by blast
    show ?thesis
    proof (cases b)
      case True
      then have step: "guess_loop rec M W gw (g # gs) mg mc = guess_loop rec M W gw gs mg mc"
        using skip notdead b by auto
      obtain mg' mc' where r: "guess_loop rec M W gw gs mg mc = Inr (mg', mc')" "mc' \<le> mc"
          "\<forall>g\<in>set gs. useless_guess M g W \<noteq> Inr True \<longrightarrow> int_le_enat mc' (?gc g)"
          "mc' < mc \<longrightarrow> (\<exists>g\<in>set gs. ?gc g = enat (nat mc') \<and> 0 \<le> mc' \<and> mg' = Some g)"
          "mc' = mc \<longrightarrow> mg' = mg"
        using IH [OF Cons.prems(2), of mg] by blast
      show ?thesis using step r b True by auto
    next
      case False
      have "\<exists>c. result_loop rec M g W gw mc (by_count (row_at M g W)) ?n = Inr c \<and>
                 agrees mc c (?gc g)"
        by (rule result_loop_guess_cost) (use Cons.prems in auto)
      then obtain c where c: "result_loop rec M g W gw mc (by_count (row_at M g W)) ?n = Inr c"
          and ag: "agrees mc c (?gc g)" by blast
      define mg1 where "mg1 = (if c < mc then Some g else mg)"
      define mc1 where "mc1 = (if c < mc then c else mc)"
      have mc1: "mc1 \<le> mc" "mc1 \<le> 10000" using Cons.prems(2) by (auto simp: mc1_def)
      have g1: "int_le_enat mc1 (?gc g)"
        using agrees_cases [OF ag] by (auto simp: mc1_def min_def split: if_splits)
      have new: "mc1 < mc \<longrightarrow> ?gc g = enat (nat mc1) \<and> 0 \<le> mc1 \<and> mg1 = Some g"
        using agrees_cases [OF ag] by (auto simp: mc1_def mg1_def)
      have same: "mc1 = mc \<longrightarrow> mg1 = mg" by (auto simp: mc1_def mg1_def)
      have step: "guess_loop rec M W gw (g # gs) mg mc =
          (if mc1 = 2 * ?n - 1 then Inr (mg1, mc1) else guess_loop rec M W gw gs mg1 mc1)"
        using skip notdead b False c by (auto simp: mg1_def mc1_def Let_def)
      show ?thesis
      proof (cases "mc1 = 2 * ?n - 1")
        case True
        have "int_le_enat mc1 (?gc g')" for g'
          unfolding True by (rule guess_never_below_small [OF ex dW])
        then show ?thesis using step True mc1 new same by auto
      next
        case False
        obtain mg' mc' where r: "guess_loop rec M W gw gs mg1 mc1 = Inr (mg', mc')" "mc' \<le> mc1"
            "\<forall>g\<in>set gs. useless_guess M g W \<noteq> Inr True \<longrightarrow> int_le_enat mc' (?gc g)"
            "mc' < mc1 \<longrightarrow> (\<exists>g\<in>set gs. ?gc g = enat (nat mc') \<and> 0 \<le> mc' \<and> mg' = Some g)"
            "mc' = mc1 \<longrightarrow> mg' = mg1"
          using IH [OF mc1(2), of mg1] by blast
        have run: "guess_loop rec M W gw (g # gs) mg mc = Inr (mg', mc')"
          using step False r(1) by simp
        have le: "mc' \<le> mc" using r(2) mc1(1) by simp
        have gg: "int_le_enat mc' (?gc g)" using r(2) g1 by (rule int_le_enat_mono)
        have lt: "\<exists>g\<in>set (g # gs). ?gc g = enat (nat mc') \<and> 0 \<le> mc' \<and> mg' = Some g" if "mc' < mc"
        proof (cases "mc' < mc1")
          case True
          then show ?thesis using r(4) by auto
        next
          case False
          then have "mc' = mc1" using r(2) by simp
          then show ?thesis using that new r(5) by auto
        qed
        have eq: "mg' = mg" if "mc' = mc"
        proof -
          have "mc1 = mc" using that r(2) mc1(1) by simp
          then show ?thesis using that same r(5) by simp
        qed
        show ?thesis using run le gg r(3) lt eq by auto
      qed
    qed
  qed
qed

section \<open>The optimal cost of the base cases\<close>

lemma sum_list_infinity: "(\<infinity>::enat) \<in> set xs \<Longrightarrow> sum_list xs = \<infinity>"
  by (induction xs) auto

lemma opt_depth5:
  assumes "exact_match M" "distinct W" "1 < length W"
  shows "spec_optimal_cost M W G 5 = \<infinity>"
proof -
  have "\<infinity> \<le> spec_guess_cost M W G 5 g" for g
  proof -
    obtain w where w: "w \<in> set W" "w \<noteq> g"
    proof (cases W)
      case Nil
      then show ?thesis using assms(3) by simp
    next
      case (Cons a W')
      then obtain b where "b \<in> set W'" using assms(3) by (cases W') auto
      then have "a \<in> set W" "b \<in> set W" "a \<noteq> b" using Cons assms(2) by auto
      then show ?thesis using that by metis
    qed
    have "M g w \<noteq> 0" using w(2) assms(1) by (simp add: exact_match_def)
    then have r: "M g w \<in> set (filter (\<lambda>r. r \<noteq> 0) (remdups (map (M g) W)))"
      using w(1) by simp
    have "\<infinity> \<in> set (map (\<lambda>r. spec_optimal_cost M (filter (\<lambda>w. M g w = r) W)
              (filter (\<lambda>g'. M g g' = r) G) (5 + 1))
            (filter (\<lambda>r. r \<noteq> 0) (remdups (map (M g) W))))"
      using r by (simp add: opt_over image_iff) blast
    then show ?thesis unfolding spec_guess_cost_def by (simp add: sum_list_infinity)
  qed
  then have "\<infinity> \<le> spec_optimal_cost M W G 5" by (intro opt_ge)
  then show ?thesis by simp
qed

lemma opt_single:
  assumes "exact_match M" "w \<in> set G" "d \<le> 5"
  shows "spec_optimal_cost M [w] G d = 1"
proof (rule antisym)
  have "M w w = 0" using assms(1) by (simp add: exact_match_def)
  then have "spec_guess_cost M [w] G d w = 1"
    by (simp add: spec_guess_cost_def one_enat_def)
  then show "spec_optimal_cost M [w] G d \<le> 1"
    using opt_le_guess [OF assms(2,3), of M "[w]"] by simp
  show "1 \<le> spec_optimal_cost M [w] G d"
    using opt_lower [OF assms(1), of "[w]" G d] by (simp add: one_enat_def)
qed

lemma opt_pair:
  assumes "exact_match M" "a \<noteq> b" "a \<in> set G" "b \<in> set G" "d \<le> 4"
  shows "spec_optimal_cost M [a, b] G d = 3"
proof (rule antisym)
  have z: "M a a = 0" "M a b \<noteq> 0" using assms(1,2) by (simp_all add: exact_match_def)
  have "b \<in> set (filter (\<lambda>g'. M a g' = M a b) G)" using assms(4) by simp
  then have "spec_optimal_cost M [b] (filter (\<lambda>g'. M a g' = M a b) G) (d + 1) = 1"
    using assms(5) by (intro opt_single [OF assms(1)]) auto
  then have "spec_guess_cost M [a, b] G d a = 3"
    using z by (simp add: spec_guess_cost_def one_enat_def numeral_eq_enat)
  then show "spec_optimal_cost M [a, b] G d \<le> 3"
    using opt_le_guess [OF assms(3), of d M "[a, b]"] assms(5) by simp
  show "3 \<le> spec_optimal_cost M [a, b] G d"
    using opt_lower [OF assms(1), of "[a, b]" G d] assms(2) by (simp add: numeral_eq_enat)
qed

lemma opt_small:
  assumes "exact_match M" "distinct W" "set W \<subseteq> set G" "1 \<le> length W" "length W \<le> 2"
    "d \<le> 5" "\<not> (d = 5 \<and> length W = 2)"
  shows "spec_optimal_cost M W G d = enat (2 * length W - 1)"
proof (cases W)
  case Nil
  then show ?thesis using assms(4) by simp
next
  case (Cons a W')
  show ?thesis
  proof (cases W')
    case Nil
    then show ?thesis using Cons assms opt_single [of M a G d] by (simp add: one_enat_def)
  next
    case (Cons b W'')
    then have W: "W = [a, b]" using \<open>W = a # W'\<close> assms(5) by simp
    then have "d \<le> 4" using assms(6,7) by simp
    then show ?thesis using W assms opt_pair [of M a b G d] by (simp add: numeral_eq_enat)
  qed
qed

section \<open>The search against the optimal cost\<close>

lemma solve_cost_loop_case:
  assumes ex: "exact_match M" and dW: "distinct W" and sub: "set W \<subseteq> set G"
    and n: "2 < length W" and d: "d < 5" and al: "alpha \<le> 10000"
    and H: "\<And>W' G' a. distinct W' \<Longrightarrow> W' \<noteq> [] \<Longrightarrow> set W' \<subseteq> set G' \<Longrightarrow> a \<le> 10000 \<Longrightarrow>
        \<exists>x v. solve_cost M W' G' a (d + 1) = Inr (x, v) \<and>
              agrees a v (spec_optimal_cost M W' G' (d + 1))"
  shows "\<exists>x v. solve_cost M W G alpha d = Inr (x, v) \<and> v \<le> alpha \<and>
      (v < alpha \<longrightarrow> spec_optimal_cost M W G d = enat (nat v) \<and> 0 \<le> v \<and> x \<noteq> None) \<and>
      (v = alpha \<longrightarrow> x = None \<and> int_le_enat alpha (spec_optimal_cost M W G d))"
proof -
  let ?gw = "sort G"
  let ?rec = "\<lambda>ws gs a. solve_cost M ws gs a (d + 1)"
  let ?gc = "\<lambda>g. spec_guess_cost M W ?gw d g"
  have ne: "W \<noteq> []" using n by auto
  have opt_eq: "spec_optimal_cost M W G d = spec_optimal_cost M W ?gw d"
    by (rule opt_set_cong) simp
  have unfold: "solve_cost M W G alpha d = guess_loop ?rec M W ?gw ?gw None alpha"
    using n d by (subst solve_cost.simps) simp
  have "\<exists>mg' mc'. guess_loop ?rec M W ?gw ?gw None alpha = Inr (mg', mc') \<and> mc' \<le> alpha \<and>
      (\<forall>g\<in>set ?gw. useless_guess M g W \<noteq> Inr True \<longrightarrow> int_le_enat mc' (?gc g)) \<and>
      (mc' < alpha \<longrightarrow> (\<exists>g\<in>set ?gw. ?gc g = enat (nat mc') \<and> 0 \<le> mc' \<and> mg' = Some g)) \<and>
      (mc' = alpha \<longrightarrow> mg' = None)"
  proof (rule guess_loop_sound [OF ex dW ne _ al])
    fix g r :: nat and a :: int
    assume g: "g \<in> set ?gw" and r: "r \<in> set (map (M g) W)" "r \<noteq> 0" and a: "0 < a" "a \<le> 10000"
    have "distinct (narrow M g W r)" using dW by (simp add: narrow_filter)
    moreover have "narrow M g W r \<noteq> []"
      using r(1) by (intro narrow_nonempty) (simp add: row_at_def)
    moreover have "set (narrow M g W r) \<subseteq> set (narrow M g ?gw r)"
      using sub by (auto simp: narrow_filter)
    ultimately show "\<exists>x v. solve_cost M (narrow M g W r) (narrow M g ?gw r) a (d + 1) = Inr (x, v) \<and>
        agrees a v (spec_optimal_cost M (narrow M g W r) (narrow M g ?gw r) (d + 1))"
      using a(2) by (rule H)
  qed
  then obtain x v where run: "guess_loop ?rec M W ?gw ?gw None alpha = Inr (x, v)"
      and le: "v \<le> alpha"
      and all: "\<forall>g\<in>set ?gw. useless_guess M g W \<noteq> Inr True \<longrightarrow> int_le_enat v (?gc g)"
      and lt: "v < alpha \<longrightarrow> (\<exists>g\<in>set ?gw. ?gc g = enat (nat v) \<and> 0 \<le> v \<and> x = Some g)"
      and eq: "v = alpha \<longrightarrow> x = None"
    by blast
  have below: "int_le_enat v (spec_optimal_cost M W ?gw d)"
  proof (cases "spec_optimal_cost M W ?gw d")
    case infinity
    then show ?thesis by (simp add: int_le_enat_def)
  next
    case (enat k)
    then obtain g where g: "g \<in> set ?gw" "?gc g = enat k"
      using opt_attained [of M W ?gw d k] by blast
    have "useless_guess M g W \<noteq> Inr True"
    proof
      assume "useless_guess M g W = Inr True"
      from useless_cost [OF ex ne this, of ?gw d]
      have "enat (length W + k) \<le> enat k" using enat g(2) by simp
      then show False using ne by simp
    qed
    then have "int_le_enat v (?gc g)" using all g(1) by blast
    then show ?thesis using enat g(2) by simp
  qed
  have found: "spec_optimal_cost M W ?gw d = enat (nat v) \<and> 0 \<le> v \<and> x \<noteq> None" if vlt: "v < alpha"
  proof -
    obtain g where g: "g \<in> set ?gw" "?gc g = enat (nat v)" "0 \<le> v" "x = Some g"
      using lt vlt by blast
    have "spec_optimal_cost M W ?gw d \<le> enat (nat v)"
      using opt_le_guess [OF g(1), of d M W] d g(2) by simp
    moreover have "enat (nat v) \<le> spec_optimal_cost M W ?gw d"
      using below g(3) by (cases "spec_optimal_cost M W ?gw d") (auto simp: int_le_enat_def)
    ultimately show ?thesis using g by simp
  qed
  show ?thesis
    using run le found eq below unfolding unfold opt_eq
    by (intro exI [of _ x] exI [of _ v]) auto
qed

lemma strong_agrees:
  "(case e of enat k \<Rightarrow> if int k \<le> a then v = int k else a \<le> v | \<infinity> \<Rightarrow> a \<le> v) \<Longrightarrow> agrees a v e"
  by (auto simp: agrees_def split: enat.splits if_splits)

lemma solve_cost_against_optimum:
  "exact_match M \<Longrightarrow> distinct W \<Longrightarrow> W \<noteq> [] \<Longrightarrow> set W \<subseteq> set G \<Longrightarrow> alpha \<le> 10000 \<Longrightarrow>
   \<exists>x v. solve_cost M W G alpha d = Inr (x, v) \<and>
     (case spec_optimal_cost M W G d of
        enat k \<Rightarrow> if int k \<le> alpha then v = int k else alpha \<le> v
      | \<infinity> \<Rightarrow> alpha \<le> v) \<and>
     (x = None \<longleftrightarrow>
        5 < d \<or> (d = 5 \<and> 1 < length W) \<or>
        (2 < length W \<and> int_le_enat alpha (spec_optimal_cost M W G d)))"
proof (induction M W G alpha d rule: solve_cost.induct)
  case (1 M W G alpha d)
  note ex = "1.prems"(1) and dW = "1.prems"(2) and ne = "1.prems"(3) and sub = "1.prems"(4)
    and al = "1.prems"(5)
  consider (over) "5 < d \<or> (d = 5 \<and> 1 < length W)"
    | (small) "d \<le> 5" "\<not> (d = 5 \<and> 1 < length W)" "length W \<le> 2"
    | (loop) "d < 5" "2 < length W"
    by force
  then show ?case
  proof cases
    case over
    have "spec_optimal_cost M W G d = \<infinity>"
      using over opt_over [of d M W G] opt_depth5 [OF ex dW, of G] by auto
    then show ?thesis using over al solve_cost_exhausted [OF over, of M G alpha] by auto
  next
    case small
    have len: "1 \<le> length W" using ne by (cases W) auto
    have nf: "\<not> (d = 5 \<and> length W = 2)" using small(2) by auto
    have "spec_optimal_cost M W G d = enat (2 * length W - 1)"
      by (rule opt_small [OF ex dW sub len small(3,1) nf])
    moreover have "solve_cost M W G alpha d = Inr (Some (hd W), 2 * int (length W) - 1)"
      by (rule solve_cost_base [OF len small(3,1) nf])
    moreover have "int (2 * length W - 1) = 2 * int (length W) - 1" using len by linarith
    ultimately show ?thesis using small by auto
  next
    case loop
    have H: "\<exists>x v. solve_cost M W' G' a (d + 1) = Inr (x, v) \<and>
              agrees a v (spec_optimal_cost M W' G' (d + 1))"
      if "distinct W'" "W' \<noteq> []" "set W' \<subseteq> set G'" "a \<le> 10000" for W' G' a
    proof -
      have "\<exists>x v. solve_cost M W' G' a (d + 1) = Inr (x, v) \<and>
         (case spec_optimal_cost M W' G' (d + 1) of
            enat k \<Rightarrow> if int k \<le> a then v = int k else a \<le> v
          | \<infinity> \<Rightarrow> a \<le> v) \<and>
         (x = None \<longleftrightarrow>
            5 < d + 1 \<or> (d + 1 = 5 \<and> 1 < length W') \<or>
            (2 < length W' \<and> int_le_enat a (spec_optimal_cost M W' G' (d + 1))))"
        by (rule "1.IH") (use loop ex that in auto)
      then show ?thesis using strong_agrees by blast
    qed
    from solve_cost_loop_case [OF ex dW sub loop(2,1) al H]
    obtain x v where r: "solve_cost M W G alpha d = Inr (x, v)" "v \<le> alpha"
        "v < alpha \<longrightarrow> spec_optimal_cost M W G d = enat (nat v) \<and> 0 \<le> v \<and> x \<noteq> None"
        "v = alpha \<longrightarrow> x = None \<and> int_le_enat alpha (spec_optimal_cost M W G d)"
      by blast
    show ?thesis
    proof (cases "v < alpha")
      case True
      then show ?thesis using r loop by (auto simp: int_le_enat_def)
    next
      case False
      then have "v = alpha" using r(2) by simp
      then show ?thesis using r loop
        by (auto simp: int_le_enat_def split: enat.splits)
    qed
  qed
qed

lemma int_le_enat_iff: "int_le_enat a e \<longleftrightarrow> \<not> e < enat (nat a)"
proof (cases e)
  case (enat k)
  have "a \<le> int k \<longleftrightarrow> \<not> k < nat a" by linarith
  then show ?thesis using enat by (simp add: int_le_enat_def)
next
  case infinity
  then show ?thesis by (simp add: int_le_enat_def)
qed

text \<open>
  Claim C1, as amended.  Take an outcome matrix whose code 0 is the exact match, a
  non-empty candidate set without repetitions whose members are all legal guesses, and
  a pruning bound \<open>alpha\<close> of at most 10000, the sentinel.  Then \<^verbatim>\<open>solve_cost\<close> of either
  class returns a pair; its cost is the optimal cost when that is at most \<open>alpha\<close>, and
  at least \<open>alpha\<close> when it is larger or the set cannot be solved within the budget.
  The guess is \<^verbatim>\<open>None\<close> exactly when the depth budget is used up, or more than two
  candidates are left and no guess costs less than \<open>alpha\<close>; with one or two
  candidates within the budget the first candidate is returned whatever \<open>alpha\<close> is.
\<close>

theorem solve_cost_pruning:
  assumes "exact_match M" "distinct words" "words \<noteq> []" "set words \<subseteq> set guesses"
    "alpha \<le> 10000"
  shows "\<exists>guess cost.
     solve_cost M words guesses alpha d = Inr (guess, cost) \<and>
     fast_solve_cost M words guesses alpha d = Inr (guess, cost) \<and>
     (case spec_optimal_cost M words guesses d of
        enat k \<Rightarrow> if int k \<le> alpha then cost = int k else alpha \<le> cost
      | \<infinity> \<Rightarrow> alpha \<le> cost) \<and>
     (guess = None \<longleftrightarrow>
        5 < d \<or> (d = 5 \<and> 1 < length words) \<or>
        (2 < length words \<and> \<not> spec_optimal_cost M words guesses d < enat (nat alpha))) \<and>
     (length words \<le> 2 \<and> d \<le> 5 \<and> \<not> (d = 5 \<and> 1 < length words) \<longrightarrow>
        guess = Some (hd words))"
proof -
  obtain guess cost where r: "solve_cost M words guesses alpha d = Inr (guess, cost)"
      "case spec_optimal_cost M words guesses d of
         enat k \<Rightarrow> if int k \<le> alpha then cost = int k else alpha \<le> cost
       | \<infinity> \<Rightarrow> alpha \<le> cost"
      "guess = None \<longleftrightarrow>
         5 < d \<or> (d = 5 \<and> 1 < length words) \<or>
         (2 < length words \<and> int_le_enat alpha (spec_optimal_cost M words guesses d))"
    using solve_cost_against_optimum [OF assms, of d] by blast
  have "guess = Some (hd words)"
    if small: "length words \<le> 2" "d \<le> 5" "\<not> (d = 5 \<and> 1 < length words)"
  proof -
    have len: "1 \<le> length words" using assms(3) by (cases words) auto
    have nf: "\<not> (d = 5 \<and> length words = 2)" using small(3) by auto
    have "solve_cost M words guesses alpha d = Inr (Some (hd words), 2 * int (length words) - 1)"
      by (rule solve_cost_base [OF len small(1,2) nf])
    then show ?thesis using r(1) by simp
  qed
  then show ?thesis
    using r by (simp add: int_le_enat_iff fast_solve_cost_eq)
qed

theorem solve_cost_pruning_witness:
  "spec_optimal_cost toy_matrix [1, 2, 3, 4] [1, 2, 3, 4] 0 = 8 \<and>
   solve_cost toy_matrix [1, 2, 3, 4] [1, 2, 3, 4] 100 0 = Inr (Some 2, 8) \<and>
   fast_solve_cost toy_matrix [1, 2, 3, 4] [1, 2, 3, 4] 100 0 = Inr (Some 2, 8) \<and>
   solve_cost toy_matrix [1, 2, 3, 4] [1, 2, 3, 4] 5 0 = Inr (None, 5) \<and>
   spec_optimal_cost toy_matrix [1, 2] [1, 2] 0 = 3 \<and>
   solve_cost toy_matrix [1, 2] [1, 2] 100 0 = Inr (Some 1, 3)"
proof -
  have o2: "spec_optimal_cost toy_matrix [1, 2] [1, 2] 0 = 3"
    by (rule opt_pair [OF exact_match_toy]) simp_all
  have d2: "distinct [1, 2 :: nat]" "[1, 2 :: nat] \<noteq> []" "set [1, 2 :: nat] \<subseteq> set [1, 2]"
    "(100 :: int) \<le> 10000" by simp_all
  have s: "solve_cost toy_matrix [1, 2] [1, 2] 100 0 = Inr (Some 1, 3)"
    using solve_cost_pruning [OF exact_match_toy d2, of 0] o2
    by (auto simp: numeral_eq_enat)
  have o: "spec_optimal_cost toy_matrix [1, 2, 3, 4] [1, 2, 3, 4] 0 = 8" by code_simp
  have d: "distinct [1, 2, 3, 4 :: nat]" "[1, 2, 3, 4 :: nat] \<noteq> []"
    "set [1, 2, 3, 4 :: nat] \<subseteq> set [1, 2, 3, 4]" by simp_all
  obtain guess cost where r:
      "solve_cost toy_matrix [1, 2, 3, 4] [1, 2, 3, 4] 100 0 = Inr (guess, cost)"
      "fast_solve_cost toy_matrix [1, 2, 3, 4] [1, 2, 3, 4] 100 0 = Inr (guess, cost)"
      "cost = 8"
    using solve_cost_pruning [OF exact_match_toy d, of 100 0] o
    by (auto simp: numeral_eq_enat)
  have g: "(case solve_cost toy_matrix [1, 2, 3, 4] [1, 2, 3, 4] 100 0 of
             Inr (guess, cost) \<Rightarrow> guess = Some 2 | Inl e \<Rightarrow> False)"
    by code_simp
  have p: "solve_cost toy_matrix [1, 2, 3, 4] [1, 2, 3, 4] 5 0 = Inr (None, 5)" by code_simp
  show ?thesis using o r g p o2 s by simp
qed

text \<open>
  Claim C1 as stated fails.  With \<open>alpha = 20000\<close> and two candidates at depth 5 the
  cost returned is the sentinel 10000: below \<open>alpha\<close>, and no cost of a solution, since
  there is none within the budget.  With one candidate and \<open>alpha = 1\<close> no guess costs
  less than \<open>alpha\<close>, and the guess returned is the candidate, not \<^verbatim>\<open>None\<close>.  With a
  candidate that is not a legal guess the cost returned is 1 though nothing can be
  guessed.
\<close>

theorem solve_cost_pruning_counterexample:
  "solve_cost toy_matrix [1, 2] [1, 2] 20000 5 = Inr (None, 10000) \<and>
   spec_optimal_cost toy_matrix [1, 2] [1, 2] 5 = \<infinity> \<and>
   solve_cost toy_matrix [1] [1] 1 0 = Inr (Some 1, 1) \<and>
   spec_optimal_cost toy_matrix [1] [1] 0 = 1 \<and>
   solve_cost toy_matrix [1] [] 100 0 = Inr (Some 1, 1) \<and>
   spec_optimal_cost toy_matrix [1] [] 0 = \<infinity>"
proof -
  have "spec_optimal_cost toy_matrix [1, 2] [1, 2] 5 = \<infinity>"
    by (rule opt_depth5 [OF exact_match_toy]) simp_all
  moreover have "spec_optimal_cost toy_matrix [1] [1] 0 = 1"
    by (rule opt_single [OF exact_match_toy]) simp_all
  moreover have "spec_optimal_cost toy_matrix [1] [] 0 = \<infinity>"
    by (simp add: opt_unfold)
  ultimately show ?thesis
    by (simp add: solve_cost_exhausted solve_cost_base)
qed

section \<open>The cost returned when the guess budget is used up\<close>

text \<open>
  The value 10000 that marks a used-up budget is an integer like any cost.  The facts
  below compute the search on \<open>wide_matrix\<close>, where the candidates \<open>1, \<dots>, n\<close> are
  told apart by the one guess 0 and by no other guess: the optimal cost is \<open>2n\<close>.
\<close>

lemma exact_match_wide: "exact_match wide_matrix"
  by (simp add: exact_match_def wide_matrix_def)

lemma set_wide_words: "set (wide_words n) = {1..n}"
  unfolding wide_words_def by (simp del: upt_Suc) auto

lemma set_wide_guesses: "set (wide_guesses n) = {0..n}"
  unfolding wide_guesses_def by (simp del: upt_Suc) auto

lemma distinct_wide_words: "distinct (wide_words n)"
  unfolding wide_words_def by (simp del: upt_Suc)

lemma length_wide_words: "length (wide_words n) = n"
  unfolding wide_words_def by (simp del: upt_Suc)

lemma remdups_wide_words: "remdups (wide_words n) = wide_words n"
  by (rule distinct_remdups_id [OF distinct_wide_words])

lemma filter_eq_single: "distinct xs \<Longrightarrow> x \<in> set xs \<Longrightarrow> filter (\<lambda>y. y = x) xs = [x]"
proof (induction xs)
  case Nil
  then show ?case by simp
next
  case (Cons a xs)
  show ?case
  proof (cases "a = x")
    case True
    then have "x \<notin> set xs" using Cons.prems(1) by simp
    then have "filter (\<lambda>y. y = x) xs = []" by (auto simp: filter_empty_conv)
    then show ?thesis using True by simp
  next
    case False
    then have "x \<in> set xs" using Cons.prems(2) by simp
    then show ?thesis using False Cons by simp
  qed
qed

lemma sum_list_ones: "(\<Sum>r\<leftarrow>xs. (1::enat)) = enat (length xs)"
  by (induction xs) (simp_all add: zero_enat_def one_enat_def)

lemma wide_partition_zero:
  assumes "r \<in> set (wide_words n)"
  shows "filter (\<lambda>w. wide_matrix 0 w = r) (wide_words n) = [r]"
proof -
  have "filter (\<lambda>w. wide_matrix 0 w = r) (wide_words n) = filter (\<lambda>w. w = r) (wide_words n)"
    by (rule filter_cong [OF refl]) (simp add: wide_matrix_def set_wide_words)
  also have "\<dots> = [r]" by (rule filter_eq_single [OF distinct_wide_words assms])
  finally show ?thesis .
qed

lemma wide_guess_cost_zero:
  "spec_guess_cost wide_matrix (wide_words n) (wide_guesses n) 0 0 = enat (2 * n)"
proof -
  let ?W = "wide_words n"
  have m: "map (wide_matrix 0) ?W = ?W"
    by (rule map_idI) (simp add: wide_matrix_def set_wide_words)
  have f: "filter (\<lambda>r. r \<noteq> 0) (remdups ?W) = ?W"
    using distinct_wide_words [of n] by (simp add: filter_id_conv set_wide_words)
  have one: "spec_optimal_cost wide_matrix (filter (\<lambda>w. wide_matrix 0 w = r) ?W)
        (filter (\<lambda>g'. wide_matrix 0 g' = r) (wide_guesses n)) (0 + 1) = 1" if "r \<in> set ?W" for r
  proof -
    have "r \<in> set (filter (\<lambda>g'. wide_matrix 0 g' = r) (wide_guesses n))"
      using that by (simp add: wide_matrix_def set_wide_words set_wide_guesses)
    then show ?thesis
      unfolding wide_partition_zero [OF that]
      by (intro opt_single [OF exact_match_wide]) simp_all
  qed
  have "(\<Sum>r\<leftarrow>?W. spec_optimal_cost wide_matrix (filter (\<lambda>w. wide_matrix 0 w = r) ?W)
        (filter (\<lambda>g'. wide_matrix 0 g' = r) (wide_guesses n)) (0 + 1)) = (\<Sum>r\<leftarrow>?W. 1)"
    by (intro arg_cong [where f = sum_list] map_cong refl one)
  also have "\<dots> = enat n"
    by (simp only: sum_list_ones length_wide_words)
  finally show ?thesis
    unfolding spec_guess_cost_def m f by (simp add: mult_2 length_wide_words)
qed

lemma wide_codes_other:
  assumes "g \<noteq> 0"
  shows "length (remdups (map (wide_matrix g) ws)) \<le> 3"
proof -
  have "set (map (wide_matrix g) ws) \<subseteq> {0, 1, 2}"
    using assms by (auto simp: wide_matrix_def)
  then have "card (set (map (wide_matrix g) ws)) \<le> card {0, 1, 2::nat}"
    by (intro card_mono) simp_all
  then show ?thesis by (simp add: length_remdups_card_conv)
qed

lemma wide_bound_other:
  assumes "g \<noteq> 0" "4 \<le> n"
  shows "2 * int n \<le> min_possible_cost wide_matrix g (wide_words n)"
  using wide_codes_other [OF assms(1), of "wide_words n"] assms(2)
  by (simp add: min_possible_cost_formula length_wide_words)

lemma wide_optimal_cost:
  assumes "4 \<le> n"
  shows "spec_optimal_cost wide_matrix (wide_words n) (wide_guesses n) 0 = enat (2 * n)"
proof (rule antisym)
  have "0 \<in> set (wide_guesses n)" by (simp add: set_wide_guesses)
  then have "spec_optimal_cost wide_matrix (wide_words n) (wide_guesses n) 0
      \<le> spec_guess_cost wide_matrix (wide_words n) (wide_guesses n) 0 0"
    by (rule opt_le_guess) simp
  then show "spec_optimal_cost wide_matrix (wide_words n) (wide_guesses n) 0 \<le> enat (2 * n)"
    by (simp only: wide_guess_cost_zero)
  show "enat (2 * n) \<le> spec_optimal_cost wide_matrix (wide_words n) (wide_guesses n) 0"
  proof (rule opt_ge)
    fix g assume "g \<in> set (wide_guesses n)"
    show "enat (2 * n) \<le> spec_guess_cost wide_matrix (wide_words n) (wide_guesses n) 0 g"
    proof (cases "g = 0")
      case True
      then show ?thesis by (simp add: wide_guess_cost_zero)
    next
      case False
      have "2 * n \<le> nat (min_possible_cost wide_matrix g (wide_words n))"
        using wide_bound_other [OF False assms] by linarith
      then have "enat (2 * n) \<le> enat (nat (min_possible_cost wide_matrix g (wide_words n)))"
        by simp
      also have "\<dots> \<le> spec_guess_cost wide_matrix (wide_words n) (wide_guesses n) 0 g"
        by (rule guess_cost_lower [OF exact_match_wide]) (simp_all add: distinct_wide_words)
      finally show ?thesis .
    qed
  qed
qed

lemma wide_solve_cost_pruned:
  assumes "4 \<le> n" "2 * int n \<le> 10000"
  shows "solve_cost wide_matrix (wide_words n) (wide_guesses n) (2 * int n) 0 = Inr (None, 2 * int n)"
proof -
  have ne: "wide_words n \<noteq> []" using assms(1) length_wide_words [of n] by auto
  have sub: "set (wide_words n) \<subseteq> set (wide_guesses n)"
    by (auto simp: set_wide_words set_wide_guesses)
  have "\<exists>x v. solve_cost wide_matrix (wide_words n) (wide_guesses n) (2 * int n) 0 = Inr (x, v) \<and>
     (case spec_optimal_cost wide_matrix (wide_words n) (wide_guesses n) 0 of
        enat k \<Rightarrow> if int k \<le> 2 * int n then v = int k else 2 * int n \<le> v
      | \<infinity> \<Rightarrow> 2 * int n \<le> v) \<and>
     (x = None \<longleftrightarrow>
        5 < (0::nat) \<or> ((0::nat) = 5 \<and> 1 < length (wide_words n)) \<or>
        (2 < length (wide_words n) \<and>
         int_le_enat (2 * int n) (spec_optimal_cost wide_matrix (wide_words n) (wide_guesses n) 0)))"
    by (rule solve_cost_against_optimum [OF exact_match_wide distinct_wide_words ne sub assms(2)])
  then show ?thesis
    using assms(1) by (auto simp: wide_optimal_cost [OF assms(1)] int_le_enat_def length_wide_words)
qed


lemma result_loop_ones:
  assumes "\<And>r a. r \<in> set rs \<Longrightarrow> r \<noteq> 0 \<and> (\<exists>x. rec (narrow M g W r) (narrow M g gw r) a = Inr (x, 1))"
    and "cost + int (length rs) \<le> mc"
  shows "result_loop rec M g W gw mc rs cost = Inr (cost + int (length rs))"
  using assms
proof (induction rs arbitrary: cost)
  case Nil
  then show ?case by simp
next
  case (Cons r rs)
  have r0: "r \<noteq> 0" using Cons.prems(1) [of r] by simp
  obtain x where x: "rec (narrow M g W r) (narrow M g gw r) (mc - cost) = Inr (x, 1)"
    using Cons.prems(1) [of r "mc - cost"] by auto
  have lt: "\<not> mc \<le> cost" using Cons.prems(2) by simp
  have "result_loop rec M g W gw mc rs (cost + 1) = Inr (cost + 1 + int (length rs))"
    by (rule Cons.IH) (use Cons.prems in auto)
  then show ?case using r0 x lt by simp
qed

lemma guess_loop_skip:
  assumes "\<And>g. g \<in> set gs \<Longrightarrow> mc \<le> min_possible_cost M g W"
  shows "guess_loop rec M W gw gs mg mc = Inr (mg, mc)"
  using assms by (induction gs) simp_all

lemma wide_guesses_Cons: "wide_guesses n = 0 # wide_words n"
  unfolding wide_guesses_def wide_words_def by (simp add: upt_conv_Cons del: upt_Suc)

lemma sort_wide_guesses: "sort (wide_guesses n) = wide_guesses n"
  unfolding wide_guesses_def by (rule sorted_sort_id) (simp del: upt_Suc)

lemma wide_zero_useful:
  assumes "2 \<le> n"
  shows "useless_guess wide_matrix 0 (wide_words n) = Inr False"
proof -
  have ne: "wide_words n \<noteq> []" using assms length_wide_words [of n] by auto
  obtain b where b: "useless_guess wide_matrix 0 (wide_words n) = Inr b"
    using useless_guess_ok [OF ne] by blast
  have "\<not> b"
  proof
    assume b
    then obtain u where "\<forall>w\<in>set (wide_words n). wide_matrix 0 w = u"
      using useless_guess_True [OF _ ne, of wide_matrix 0] b by auto
    then have "wide_matrix 0 1 = u" "wide_matrix 0 2 = u"
      using assms by (simp_all add: set_wide_words)
    then show False by (simp add: wide_matrix_def)
  qed
  then show ?thesis using b by simp
qed

lemma wide_bound_zero: "min_possible_cost wide_matrix 0 (wide_words n) = 2 * int n"
proof -
  have m: "map (wide_matrix 0) (wide_words n) = wide_words n"
    by (rule map_idI) (simp add: wide_matrix_def set_wide_words)
  show ?thesis
    by (simp add: min_possible_cost_formula m remdups_wide_words length_wide_words set_wide_words)
qed

lemma wide_result_loop_zero:
  "result_loop (\<lambda>ws gs a. solve_cost wide_matrix ws gs a (0 + 1)) wide_matrix 0 (wide_words n)
     (wide_guesses n) (2 * int n + 1) (by_count (row_at wide_matrix 0 (wide_words n))) (int n)
   = Inr (2 * int n)"
proof -
  let ?rs = "by_count (row_at wide_matrix 0 (wide_words n))"
  have m: "row_at wide_matrix 0 (wide_words n) = wide_words n"
    unfolding row_at_def by (rule map_idI) (simp add: wide_matrix_def set_wide_words)
  have ms: "mset ?rs = mset (wide_words n)"
    by (simp add: mset_by_count m remdups_wide_words)
  have len: "length ?rs = n"
    using ms length_wide_words [of n] by (metis size_mset)
  have st: "set ?rs = set (wide_words n)" by (simp add: set_by_count m)
  have "result_loop (\<lambda>ws gs a. solve_cost wide_matrix ws gs a (0 + 1)) wide_matrix 0 (wide_words n)
     (wide_guesses n) (2 * int n + 1) ?rs (int n) = Inr (int n + int (length ?rs))"
  proof (rule result_loop_ones)
    fix r :: nat and a :: int
    assume "r \<in> set ?rs"
    then have r: "r \<in> set (wide_words n)" using st by simp
    have "solve_cost wide_matrix (narrow wide_matrix 0 (wide_words n) r)
        (narrow wide_matrix 0 (wide_guesses n) r) a (0 + 1) = Inr (Some r, 1)"
      unfolding narrow_filter wide_partition_zero [OF r]
      using solve_cost_base [of "[r]" "0 + 1" wide_matrix] by simp
    moreover have "r \<noteq> 0" using r by (simp add: set_wide_words)
    ultimately show "r \<noteq> 0 \<and> (\<exists>x. solve_cost wide_matrix (narrow wide_matrix 0 (wide_words n) r)
        (narrow wide_matrix 0 (wide_guesses n) r) a (0 + 1) = Inr (x, 1))" by blast
  next
    show "int n + int (length ?rs) \<le> 2 * int n + 1" using len by simp
  qed
  then show ?thesis using len by simp
qed

lemma wide_solve_cost_found:
  assumes "4 \<le> n"
  shows "solve_cost wide_matrix (wide_words n) (wide_guesses n) (2 * int n + 1) 0 = Inr (Some 0, 2 * int n)"
proof -
  let ?rec = "\<lambda>ws gs a. solve_cost wide_matrix ws gs a (0 + 1)"
  have n0: "0 \<notin> set (wide_words n)" by (simp add: set_wide_words)
  have rest: "guess_loop ?rec wide_matrix (wide_words n) (wide_guesses n) (wide_words n) (Some 0) (2 * int n)
      = Inr (Some 0, 2 * int n)"
    by (rule guess_loop_skip) (use assms in \<open>simp add: wide_bound_other set_wide_words\<close>)
  have "solve_cost wide_matrix (wide_words n) (wide_guesses n) (2 * int n + 1) 0
      = guess_loop ?rec wide_matrix (wide_words n) (wide_guesses n) (wide_guesses n) None (2 * int n + 1)"
    using assms by (subst solve_cost.simps) (simp add: length_wide_words sort_wide_guesses)
  also have "\<dots> = guess_loop ?rec wide_matrix (wide_words n) (wide_guesses n) (wide_words n) (Some 0) (2 * int n)"
    using assms n0 wide_zero_useful [of n] wide_result_loop_zero [of n]
    by (subst wide_guesses_Cons) (simp add: wide_bound_zero length_wide_words)
  finally show ?thesis using rest by simp
qed

text \<open>
  Claim C4, as amended.  When the depth exceeds the budget (\<open>d > 5\<close>), or \<open>d = 5\<close> with
  more than one candidate left, \<^verbatim>\<open>solve_cost\<close> of either class returns no guess and the
  cost 10000, whatever the other arguments are; and the candidates cannot then be solved
  within the budget (the optimal cost is infinite), when code 0 is the exact match and
  no candidate is repeated.
\<close>

theorem solve_cost_budget_exhausted:
  "d > 5 \<or> (d = 5 \<and> length words > 1) \<Longrightarrow>
   solve_cost M words guess_words alpha d = Inr (None, 10000) \<and>
   fast_solve_cost M words guess_words alpha d = Inr (None, 10000) \<and>
   (exact_match M \<and> distinct words \<longrightarrow> spec_optimal_cost M words guess_words d = \<infinity>)"
  using opt_over [of d M words guess_words] opt_depth5 [of M words guess_words]
  by (auto simp: fast_solve_cost_eq solve_cost_exhausted)

theorem solve_cost_budget_exhausted_witness:
  "solve_cost toy_matrix [1, 2, 3] [1, 2, 3] 50 5 = Inr (None, 10000) \<and>
   fast_solve_cost toy_matrix [1, 2, 3] [1, 2, 3] 50 5 = Inr (None, 10000) \<and>
   spec_optimal_cost toy_matrix [1, 2, 3] [1, 2, 3] 5 = \<infinity>"
proof -
  have "(5::nat) > 5 \<or> ((5::nat) = 5 \<and> length [1, 2, 3 :: nat] > 1)" by simp
  from solve_cost_budget_exhausted [OF this, of toy_matrix "[1, 2, 3]" 50]
  show ?thesis using exact_match_toy by simp
qed

text \<open>
  Claim C4 as stated fails: the value 10000 cannot be told from a cost.  A caller adds
  it to its own count: four candidates at depth 4 cannot be solved within the budget,
  and \<^verbatim>\<open>solve_cost\<close> returns the guess 1 with the cost 10004.  And 10000 is a cost
  that can be achieved: the 5000 candidates of \<open>wide_matrix\<close> have the optimal cost
  10000, which \<^verbatim>\<open>solve_cost\<close> returns with the guess 0 when \<open>alpha\<close> is 10001; with
  \<open>alpha = 10000\<close> it returns for this solvable set, at depth 0, the very pair
  \<^verbatim>\<open>(None, 10000)\<close> of a used-up budget.
\<close>

theorem solve_cost_budget_exhausted_counterexample:
  "solve_cost toy_matrix [1, 2, 3, 4] [1, 2, 3, 4] 50000 4 = Inr (Some 1, 10004) \<and>
   spec_optimal_cost toy_matrix [1, 2, 3, 4] [1, 2, 3, 4] 4 = \<infinity> \<and>
   spec_optimal_cost wide_matrix (wide_words 5000) (wide_guesses 5000) 0 = enat 10000 \<and>
   solve_cost wide_matrix (wide_words 5000) (wide_guesses 5000) 10001 0 = Inr (Some 0, 10000) \<and>
   solve_cost wide_matrix (wide_words 5000) (wide_guesses 5000) 10000 0 = Inr (None, 10000)"
proof -
  have "solve_cost toy_matrix [1, 2, 3, 4] [1, 2, 3, 4] 50000 4 = Inr (Some 1, 10004)"
    by code_simp
  moreover have "spec_optimal_cost toy_matrix [1, 2, 3, 4] [1, 2, 3, 4] 4 = \<infinity>"
    by code_simp
  moreover have "spec_optimal_cost wide_matrix (wide_words 5000) (wide_guesses 5000) 0 = enat 10000"
    using wide_optimal_cost [of 5000] by simp
  moreover have "solve_cost wide_matrix (wide_words 5000) (wide_guesses 5000) 10001 0 = Inr (Some 0, 10000)"
    using wide_solve_cost_found [of 5000] by simp
  moreover have "solve_cost wide_matrix (wide_words 5000) (wide_guesses 5000) 10000 0 = Inr (None, 10000)"
    using wide_solve_cost_pruned [of 5000] by simp
  ultimately show ?thesis by simp
qed

end
